theory Spec2Isabelle
  imports Main "HOL-Library.Word"
begin

unbundle bit_operations_syntax

section \<open>BeagleLogic kernel driver: data model\<close>

text \<open>
  A shallow embedding of \<^verbatim>\<open>src/kernel/beaglelogic.c\<close> (with the enums of
  \<^verbatim>\<open>src/kernel/beaglelogic.h\<close>). The driver targets the 32-bit ARM of the BeagleBone, so
  \<^verbatim>\<open>uint32_t\<close>, \<^verbatim>\<open>size_t\<close> and \<^verbatim>\<open>int\<close> are 32 bits wide and
  \<^verbatim>\<open>unsigned short\<close> is 16 bits wide.

  Every operation that can dereference an invalid pointer, divide by zero, sleep on a lock that
  is held, or loop for ever returns an \<open>option\<close>: \<open>None\<close> says that the call does not
  return a value. Each definition says which of these it can do.
\<close>

type_synonym u32 = "32 word"
type_synonym u16 = "16 word"

subsection \<open>Enumerations\<close>

text \<open>\<^verbatim>\<open>enum bufstates\<close>; the value 0 is what \<^verbatim>\<open>devm_kzalloc\<close> leaves in a fresh entry.\<close>

datatype bufstates =
  STATE_BL_BUF_ALLOC | STATE_BL_BUF_MAPPED | STATE_BL_BUF_UNMAPPED | STATE_BL_BUF_DROPPED

text \<open>
  \<^verbatim>\<open>enum beaglelogic_states\<close>. The device keeps its state in a \<^verbatim>\<open>uint32_t\<close> and
  the interrupt handler compares it with \<^verbatim>\<open><=\<close> and masks it with \<^verbatim>\<open>&\<close>, so the
  enumerators are kept as numbers.
\<close>

definition STATE_BL_DISABLED :: u32 where "STATE_BL_DISABLED = 0"
definition STATE_BL_INITIALIZED :: u32 where "STATE_BL_INITIALIZED = 1"
definition STATE_BL_MEMALLOCD :: u32 where "STATE_BL_MEMALLOCD = 2"
definition STATE_BL_ARMED :: u32 where "STATE_BL_ARMED = 3"
definition STATE_BL_RUNNING :: u32 where "STATE_BL_RUNNING = 4"
definition STATE_BL_REQUEST_STOP :: u32 where "STATE_BL_REQUEST_STOP = 5"
definition STATE_BL_ERROR :: u32 where "STATE_BL_ERROR = 6"

definition BL_TRIGGERFLAGS_ONESHOT :: u32 where "BL_TRIGGERFLAGS_ONESHOT = 0"
definition BL_TRIGGERFLAGS_CONTINUOUS :: u32 where "BL_TRIGGERFLAGS_CONTINUOUS = 1"

text \<open>The errno values of Linux that the driver returns (negated).\<close>

definition EIO :: int where "EIO = 5"
definition ENOEXEC :: int where "ENOEXEC = 8"
definition EAGAIN :: int where "EAGAIN = 11"
definition ENOMEM :: int where "ENOMEM = 12"
definition EFAULT :: int where "EFAULT = 14"
definition EBUSY :: int where "EBUSY = 16"
definition EINVAL :: int where "EINVAL = 22"
definition ERESTARTSYS :: int where "ERESTARTSYS = 512"

definition CMD_SET_CONFIG :: u32 where "CMD_SET_CONFIG = 3"
definition CMD_START :: u32 where "CMD_START = 4"

subsection \<open>Structures\<close>

text \<open>
  \<^verbatim>\<open>struct logic_buffer\<close>. Addresses are numbers, 0 is \<^verbatim>\<open>NULL\<close>. The \<^verbatim>\<open>next\<close>
  pointer always points into the array the buffer lives in, so it is the position there
  (\<open>None\<close> is \<^verbatim>\<open>NULL\<close>). The fields \<^verbatim>\<open>size\<close>, \<^verbatim>\<open>state\<close> and \<^verbatim>\<open>next\<close> are
  spelled \<open>bsize\<close>, \<open>bstate\<close> and \<open>nxt\<close> here.
\<close>

record logic_buffer =
  buf :: nat
  phys_addr :: nat
  bsize :: u32
  bstate :: bufstates
  index :: u16
  nxt :: "nat option"

text \<open>The fields of \<^verbatim>\<open>struct capture_context\<close> (PRU0 shared memory) that the driver writes.\<close>

record capture_context =
  cmd :: u32
  samplediv :: u32
  cxt_sampleunit :: u32
  cxt_triggerflags :: u32
  stop_flag :: u32

text \<open>
  \<^verbatim>\<open>struct beaglelogicdev\<close>. \<open>mutex\<close> is \<open>True\<close> while the mutex is held.
  \<open>buffers\<close> is \<open>None\<close> for a \<^verbatim>\<open>NULL\<close> array; \<open>lastbufready\<close> and
  \<open>bufbeingread\<close> point into that array and are positions in it.
  The last field is not a field of the C structure: it is the state of the kernel's coherent
  DMA allocator, the regions (address and size) handed out by \<^verbatim>\<open>dma_alloc_coherent\<close> and
  not yet given back through \<^verbatim>\<open>dma_free_coherent\<close>.
\<close>

record beaglelogicdev =
  from_bl_irq_1 :: int
  from_bl_irq_2 :: int
  coreclockfreq :: u32
  mutex :: bool
  buffers :: "logic_buffer list option"
  lastbufready :: "nat option"
  bufbeingread :: "nat option"
  bufcount :: u32
  cxt_pru :: capture_context
  maxbufcount :: u32
  bufunitsize :: u32
  samplerate :: u32
  triggerflags :: u32
  sampleunit :: u32
  state :: u32
  lasterror :: u32
  dma_live :: "(nat \<times> u32) list"

text \<open>\<^verbatim>\<open>struct logic_buffer_reader\<close>; its \<^verbatim>\<open>buf\<close> pointer is spelled \<open>rbuf\<close>.\<close>

record logic_buffer_reader =
  rbuf :: "nat option"
  pos :: u32
  remaining :: u32

section \<open>Buffer management\<close>

text \<open>
  \<^verbatim>\<open>beaglelogic_map_buffer\<close>: the buffer is passed by pointer, so the model returns it
  beside the return code. The function only inspects the buffer.
\<close>

definition beaglelogic_map_buffer :: "logic_buffer \<Rightarrow> int \<times> logic_buffer" where
  "beaglelogic_map_buffer b =
     (if bstate b = STATE_BL_BUF_MAPPED then (0, b)
      else if phys_addr b \<noteq> 0 then (0, b)
      else (- EINVAL, b))"

definition beaglelogic_unmap_buffer :: "logic_buffer \<Rightarrow> logic_buffer" where
  "beaglelogic_unmap_buffer b = b\<lparr>bstate := STATE_BL_BUF_UNMAPPED\<rparr>"

section \<open>Locking\<close>

text \<open>
  \<^verbatim>\<open>mutex_trylock\<close> reports whether it took the mutex. \<^verbatim>\<open>mutex_lock\<close> on a held
  mutex puts the caller to sleep until the holder releases it: in this sequential model the
  call does not return (\<open>None\<close>).
\<close>

definition mutex_trylock :: "beaglelogicdev \<Rightarrow> bool \<times> beaglelogicdev" where
  "mutex_trylock bldev = (if mutex bldev then (False, bldev) else (True, bldev\<lparr>mutex := True\<rparr>))"

definition mutex_lock :: "beaglelogicdev \<Rightarrow> beaglelogicdev option" where
  "mutex_lock bldev = (if mutex bldev then None else Some (bldev\<lparr>mutex := True\<rparr>))"

definition mutex_unlock :: "beaglelogicdev \<Rightarrow> beaglelogicdev" where
  "mutex_unlock bldev = bldev\<lparr>mutex := False\<rparr>"

definition mutex_is_locked :: "beaglelogicdev \<Rightarrow> bool" where
  "mutex_is_locked bldev = mutex bldev"

section \<open>Interrupt handler\<close>

text \<open>
  \<^verbatim>\<open>beaglelogic_serve_irq\<close>. \<open>None\<close>: the handler dereferences \<^verbatim>\<open>bufbeingread\<close> or a
  \<^verbatim>\<open>next\<close> pointer that is \<^verbatim>\<open>NULL\<close> or points outside the buffer array.
  \<open>irq_advance\<close> is the body of the inner \<^verbatim>\<open>if\<close> (move the cursor, call
  \<^verbatim>\<open>beaglelogic_map_buffer\<close> on the new current buffer).
\<close>

definition irq_advance :: "beaglelogicdev \<Rightarrow> logic_buffer list \<Rightarrow> nat \<Rightarrow> beaglelogicdev option" where
  "irq_advance bldev bs i =
     (case nxt (bs ! i) of
        None \<Rightarrow> None
      | Some n \<Rightarrow>
          if n < length bs
          then Some (bldev\<lparr>bufbeingread := Some n,
                           buffers := Some (bs[n := snd (beaglelogic_map_buffer (bs ! n))])\<rparr>)
          else None)"

definition beaglelogic_serve_irq :: "int \<Rightarrow> beaglelogicdev \<Rightarrow> beaglelogicdev option" where
  "beaglelogic_serve_irq irqno bldev =
     (if irqno = from_bl_irq_1 bldev then
        (case (buffers bldev, bufbeingread bldev) of
           (Some bs, Some i) \<Rightarrow>
             if i < length bs then
               (let bs1 = bs[i := beaglelogic_unmap_buffer (bs ! i)];
                    d1 = bldev\<lparr>lastbufready := Some i, buffers := Some bs1\<rparr>
                in if triggerflags d1 \<noteq> BL_TRIGGERFLAGS_ONESHOT then irq_advance d1 bs1 i
                   else (case nxt (bs1 ! i) of
                           None \<Rightarrow> None
                         | Some n \<Rightarrow>
                             if n < length bs1
                             then (if index (bs1 ! n) \<noteq> 0 then irq_advance d1 bs1 i else Some d1)
                             else None))
             else None
         | _ \<Rightarrow> None)
      else if irqno = from_bl_irq_2 bldev then
        (let st = state bldev
         in if st \<le> STATE_BL_ARMED then Some bldev
            else if st \<noteq> STATE_BL_REQUEST_STOP \<and> st \<noteq> STATE_BL_RUNNING
            then Some (bldev\<lparr>state := STATE_BL_ERROR\<rparr>)
            else (let d1 = bldev\<lparr>state := STATE_BL_INITIALIZED\<rparr>
                  in if triggerflags d1 = BL_TRIGGERFLAGS_ONESHOT \<and> st AND STATE_BL_RUNNING \<noteq> 0
                     then Some (mutex_unlock d1)
                     else Some d1))
      else Some bldev)"

section \<open>Device configuration\<close>

definition beaglelogic_get_samplerate :: "beaglelogicdev \<Rightarrow> u32" where
  "beaglelogic_get_samplerate bldev = samplerate bldev"

text \<open>
  \<^verbatim>\<open>beaglelogic_set_samplerate\<close>. The range check guarantees that neither division is
  by zero.
\<close>

definition beaglelogic_set_samplerate :: "u32 \<Rightarrow> beaglelogicdev \<Rightarrow> int \<times> beaglelogicdev" where
  "beaglelogic_set_samplerate rate bldev =
     (if rate > coreclockfreq bldev div 2 \<or> rate < 1 then (- EINVAL, bldev)
      else (case mutex_trylock bldev of
              (True, d) \<Rightarrow>
                (0, mutex_unlock
                      (d\<lparr>samplerate := (coreclockfreq d div 2) div ((coreclockfreq d div 2) div rate)\<rparr>))
            | (False, d) \<Rightarrow> (- EBUSY, d)))"

section \<open>PRU communication\<close>

text \<open>
  \<^verbatim>\<open>beaglelogic_send_cmd\<close> writes the command word and polls for the firmware to clear it.
  The firmware is outside the driver: \<open>pru c\<close> is \<open>Some r\<close> when it answers command
  \<open>c\<close> with response \<open>r\<close> within the 200 polls, \<open>None\<close> when it does not.
\<close>

definition beaglelogic_send_cmd ::
  "(u32 \<Rightarrow> u32 option) \<Rightarrow> u32 \<Rightarrow> beaglelogicdev \<Rightarrow> int \<times> beaglelogicdev" where
  "beaglelogic_send_cmd pru c bldev =
     (case pru c of
        None \<Rightarrow> (- 1, bldev\<lparr>cxt_pru := (cxt_pru bldev)\<lparr>cmd := c\<rparr>\<rparr>)
      | Some r \<Rightarrow> (sint r, bldev\<lparr>cxt_pru := (cxt_pru bldev)\<lparr>cmd := 0\<rparr>\<rparr>))"

definition beaglelogic_request_stop :: "beaglelogicdev \<Rightarrow> beaglelogicdev" where
  "beaglelogic_request_stop bldev = bldev\<lparr>cxt_pru := (cxt_pru bldev)\<lparr>stop_flag := 1\<rparr>\<rparr>"

text \<open>\<^verbatim>\<open>beaglelogic_write_configuration\<close>. \<open>None\<close>: division by a zero sample rate.\<close>

definition beaglelogic_write_configuration ::
  "(u32 \<Rightarrow> u32 option) \<Rightarrow> beaglelogicdev \<Rightarrow> (int \<times> beaglelogicdev) option" where
  "beaglelogic_write_configuration pru bldev =
     (if samplerate bldev = 0 then None
      else
        (let d1 = bldev\<lparr>cxt_pru := (cxt_pru bldev)
                     \<lparr>samplediv := (coreclockfreq bldev div 2) div samplerate bldev,
                      cxt_sampleunit := sampleunit bldev,
                      cxt_triggerflags := triggerflags bldev\<rparr>\<rparr>
         in Some (0, snd (beaglelogic_send_cmd pru CMD_SET_CONFIG d1))))"

section \<open>Start and stop\<close>

text \<open>
  \<^verbatim>\<open>beaglelogic_start\<close>. \<open>None\<close>: the caller sleeps in \<^verbatim>\<open>mutex_lock\<close> because the
  mutex is held, or the configuration divides by zero. \<^verbatim>\<open>&bldev->buffers[0]\<close> is
  \<^verbatim>\<open>NULL\<close> when the array is.
\<close>

definition beaglelogic_start ::
  "(u32 \<Rightarrow> u32 option) \<Rightarrow> beaglelogicdev \<Rightarrow> (int \<times> beaglelogicdev) option" where
  "beaglelogic_start pru bldev =
     (case mutex_lock bldev of
        None \<Rightarrow> None
      | Some d0 \<Rightarrow>
          (let d1 = d0\<lparr>cxt_pru := (cxt_pru d0)\<lparr>stop_flag := 0\<rparr>\<rparr>
           in case beaglelogic_write_configuration pru d1 of
                None \<Rightarrow> None
              | Some (r, d2) \<Rightarrow>
                  if r \<noteq> 0 then Some (- 1, mutex_unlock d2)
                  else
                    (let d3 = d2\<lparr>bufbeingread := (case buffers d2 of None \<Rightarrow> None | Some bs \<Rightarrow> Some 0)\<rparr>;
                         d4 = snd (beaglelogic_send_cmd pru CMD_START d3)
                     in Some (0, d4\<lparr>state := STATE_BL_RUNNING, lasterror := 0\<rparr>))))"

text \<open>
  Sleeping on the wait queue. While a caller sleeps, the interrupts of \<open>irqs\<close> are served in
  order; the sleep ends as soon as the condition holds. \<open>sleep_until\<close> returns whether the
  condition was reached and the device as the interrupts left it (\<open>None\<close>: the interrupt
  handler faulted). When the interrupts run out with the condition still false, the sleep is
  ended from outside: by a signal, or for a bounded wait by its timeout.
\<close>

fun sleep_until ::
  "(beaglelogicdev \<Rightarrow> bool) \<Rightarrow> int list \<Rightarrow> beaglelogicdev \<Rightarrow> (bool \<times> beaglelogicdev) option" where
  "sleep_until cond [] bldev = Some (cond bldev, bldev)"
| "sleep_until cond (irqno # irqs) bldev =
     (if cond bldev then Some (True, bldev)
      else (case beaglelogic_serve_irq irqno bldev of
              None \<Rightarrow> None
            | Some d \<Rightarrow> sleep_until cond irqs d))"

datatype wakeup = Expired | Signalled

text \<open>
  \<^verbatim>\<open>wait_event_interruptible\<close>: 0 when the condition holds, \<^verbatim>\<open>-ERESTARTSYS\<close> on a
  signal. \<^verbatim>\<open>wait_event_interruptible_timeout\<close>: a positive number of remaining jiffies
  when the condition holds (the driver only compares it with 0 and \<^verbatim>\<open>-ERESTARTSYS\<close>; the
  model returns 1), 0 when the timeout expires, \<^verbatim>\<open>-ERESTARTSYS\<close> on a signal.
\<close>

definition wait_event_interruptible ::
  "(beaglelogicdev \<Rightarrow> bool) \<Rightarrow> int list \<Rightarrow> beaglelogicdev \<Rightarrow> (int \<times> beaglelogicdev) option" where
  "wait_event_interruptible cond irqs bldev =
     (case sleep_until cond irqs bldev of
        None \<Rightarrow> None
      | Some (reached, d) \<Rightarrow> Some (if reached then 0 else - ERESTARTSYS, d))"

definition wait_event_interruptible_timeout ::
  "(beaglelogicdev \<Rightarrow> bool) \<Rightarrow> int list \<Rightarrow> wakeup \<Rightarrow> beaglelogicdev
     \<Rightarrow> (int \<times> beaglelogicdev) option" where
  "wait_event_interruptible_timeout cond irqs wake bldev =
     (case sleep_until cond irqs bldev of
        None \<Rightarrow> None
      | Some (reached, d) \<Rightarrow>
          Some (if reached then 1 else (case wake of Expired \<Rightarrow> 0 | Signalled \<Rightarrow> - ERESTARTSYS), d))"

text \<open>
  \<^verbatim>\<open>beaglelogic_stop\<close>. \<open>boot0\<close> and \<open>boot1\<close> are the return codes of
  \<^verbatim>\<open>rproc_boot\<close> for PRU0 and PRU1 (\<open>boot1\<close> is only asked for when PRU0 booted).
  \<open>None\<close>: an interrupt served during the wait faulted.
\<close>

definition beaglelogic_stop ::
  "int list \<Rightarrow> wakeup \<Rightarrow> int \<Rightarrow> int \<Rightarrow> beaglelogicdev \<Rightarrow> beaglelogicdev option" where
  "beaglelogic_stop irqs wake boot0 boot1 bldev =
     (if mutex_is_locked bldev then
        (if state bldev = STATE_BL_RUNNING then
           (let d1 = (beaglelogic_request_stop bldev)\<lparr>state := STATE_BL_REQUEST_STOP\<rparr>
            in case wait_event_interruptible_timeout
                      (\<lambda>d. state d = STATE_BL_INITIALIZED) irqs wake d1 of
                 None \<Rightarrow> None
               | Some (ret, d2) \<Rightarrow>
                   if ret = 0 then
                     (if boot0 \<noteq> 0 then Some (mutex_unlock (d2\<lparr>state := STATE_BL_ERROR\<rparr>))
                      else if boot1 \<noteq> 0 then Some (mutex_unlock (d2\<lparr>state := STATE_BL_ERROR\<rparr>))
                      else Some (mutex_unlock (d2\<lparr>state := STATE_BL_INITIALIZED\<rparr>)))
                   else if ret = - ERESTARTSYS
                   then Some (mutex_unlock (d2\<lparr>state := STATE_BL_INITIALIZED\<rparr>))
                   else Some (mutex_unlock d2))
         else Some (mutex_unlock bldev))
      else Some bldev)"

section \<open>Ring allocation\<close>

text \<open>
  The kernel macro \<^verbatim>\<open>DIV_ROUND_UP(n, d)\<close> is \<^verbatim>\<open>(((n) + (d) - 1) / (d))\<close>
  (\<^verbatim>\<open>include/linux/math.h\<close>). \<^verbatim>\<open>beaglelogic_memalloc\<close> applies it to two
  \<^verbatim>\<open>uint32_t\<close> operands, so the sum is taken modulo \<open>2 ^ 32\<close>. \<open>None\<close>: division by zero.
\<close>

definition DIV_ROUND_UP :: "u32 \<Rightarrow> u32 \<Rightarrow> u32 option" where
  "DIV_ROUND_UP n d = (if d = 0 then None else Some ((n + d - 1) div d))"

text \<open>An entry of the array as \<^verbatim>\<open>devm_kzalloc\<close> returns it: all bytes zero.\<close>

definition zeroed_buffer :: logic_buffer where
  "zeroed_buffer =
     \<lparr>buf = 0, phys_addr = 0, bsize = 0, bstate = STATE_BL_BUF_ALLOC, index = 0, nxt = None\<rparr>"

text \<open>
  The allocation loop of \<^verbatim>\<open>beaglelogic_memalloc\<close>, from \<open>i\<close> on. \<open>dma_alloc i\<close> is what
  the \<open>i\<close>-th call of \<^verbatim>\<open>dma_alloc_coherent\<close> returns: the buffer address (0 when the
  allocation fails) and the DMA handle. The result says whether the loop ran to its end, and
  gives the array and the live DMA regions. The contents of the regions are not modelled.
\<close>

function alloc_loop ::
  "(nat \<Rightarrow> nat \<times> nat) \<Rightarrow> u32 \<Rightarrow> nat \<Rightarrow> nat \<Rightarrow> logic_buffer list \<Rightarrow> (nat \<times> u32) list
     \<Rightarrow> bool \<times> logic_buffer list \<times> (nat \<times> u32) list" where
  "alloc_loop dma_alloc unit cnt i bs live =
     (if i < cnt then
        (if fst (dma_alloc i) = 0 then (False, bs, live)
         else alloc_loop dma_alloc unit cnt (Suc i)
                (bs[i := (bs ! i)\<lparr>buf := fst (dma_alloc i), phys_addr := snd (dma_alloc i),
                                  bsize := unit, index := of_nat i,
                                  bstate := STATE_BL_BUF_MAPPED,
                                  nxt := Some ((i + 1) mod cnt)\<rparr>])
                ((fst (dma_alloc i), unit) # live))
      else (True, bs, live))"
  by pat_completeness auto
termination
  by (relation "measure (\<lambda>(dma_alloc, unit, cnt, i, bs, live). cnt - i)") auto

text \<open>The loop under \<^verbatim>\<open>failrelease\<close>: give back every entry that holds a buffer.\<close>

function free_loop ::
  "nat \<Rightarrow> nat \<Rightarrow> logic_buffer list \<Rightarrow> (nat \<times> u32) list \<Rightarrow> (nat \<times> u32) list" where
  "free_loop cnt i bs live =
     (if i < cnt then
        free_loop cnt (Suc i) bs
          (if buf (bs ! i) \<noteq> 0 then remove1 (buf (bs ! i), bsize (bs ! i)) live else live)
      else live)"
  by pat_completeness auto
termination
  by (relation "measure (\<lambda>(cnt, i, bs, live). cnt - i)") auto

text \<open>
  \<^verbatim>\<open>beaglelogic_memalloc\<close>. \<open>kzalloc_ok\<close> says whether \<^verbatim>\<open>devm_kzalloc\<close> returns the
  array. \<^verbatim>\<open>cnt\<close> is an \<^verbatim>\<open>int\<close>: it is compared with \<^verbatim>\<open>maxbufcount\<close> as unsigned,
  and both loops compare \<^verbatim>\<open>i < cnt\<close> as signed, so they do not run when the sign bit of
  \<open>cnt\<close> is set. The list holds the entries \<open>0 .. cnt - 1\<close> of the array.
  \<open>None\<close>: the unit size is 0 and the division faults.
\<close>

definition beaglelogic_memalloc ::
  "bool \<Rightarrow> (nat \<Rightarrow> nat \<times> nat) \<Rightarrow> u32 \<Rightarrow> beaglelogicdev \<Rightarrow> (int \<times> beaglelogicdev) option" where
  "beaglelogic_memalloc kzalloc_ok dma_alloc bufsize bldev =
     (case mutex_trylock bldev of
        (False, d) \<Rightarrow> Some (- EBUSY, d)
      | (True, d0) \<Rightarrow>
          (case DIV_ROUND_UP bufsize (bufunitsize d0) of
             None \<Rightarrow> None
           | Some q \<Rightarrow>
               (let cnt = max q 2
                in if cnt > maxbufcount d0 then Some (- ENOMEM, mutex_unlock d0)
                   else
                     (let d1 = d0\<lparr>bufcount := cnt\<rparr>;
                          n = (if 0 < sint cnt then nat (sint cnt) else 0)
                      in if \<not> kzalloc_ok
                         then Some (- ENOMEM, mutex_unlock (d1\<lparr>buffers := None\<rparr>))
                         else
                           (case alloc_loop dma_alloc (bufunitsize d1) n 0
                                   (replicate (unat cnt) zeroed_buffer) (dma_live d1) of
                              (True, bs, live) \<Rightarrow>
                                Some (0, mutex_unlock (d1\<lparr>buffers := Some bs, dma_live := live\<rparr>))
                            | (False, bs, live) \<Rightarrow>
                                Some (- ENOMEM,
                                      mutex_unlock
                                        (d1\<lparr>dma_live := free_loop n 0 bs live,
                                            bufcount := 0, buffers := None\<rparr>)))))))"

section \<open>Reading and seeking\<close>

text \<open>
  The overrun detector shared by \<^verbatim>\<open>beaglelogic_f_read\<close> and
  \<^verbatim>\<open>beaglelogic_f_llseek\<close>: a current buffer that is still Mapped becomes Dropped and
  the last error becomes \<^verbatim>\<open>0x10000 | index\<close>.
\<close>

definition detect_drop :: "nat \<Rightarrow> logic_buffer list \<Rightarrow> logic_buffer list" where
  "detect_drop i bs =
     (if bstate (bs ! i) = STATE_BL_BUF_MAPPED
      then bs[i := (bs ! i)\<lparr>bstate := STATE_BL_BUF_DROPPED\<rparr>] else bs)"

definition detect_drop_error :: "nat \<Rightarrow> logic_buffer list \<Rightarrow> u32 \<Rightarrow> u32" where
  "detect_drop_error i bs err =
     (if bstate (bs ! i) = STATE_BL_BUF_MAPPED then 0x10000 OR ucast (index (bs ! i)) else err)"

text \<open>
  The part of \<^verbatim>\<open>beaglelogic_f_read\<close> from the label \<^verbatim>\<open>perform_copy\<close> on.
  \<open>copy_ok\<close> says whether the user buffer can be written (\<^verbatim>\<open>copy_to_user\<close> of zero
  bytes always succeeds). The result is the return value, the reader and the device.
  \<open>None\<close>: \<^verbatim>\<open>reader->buf\<close> or the \<^verbatim>\<open>next\<close> pointer followed is invalid.
\<close>

definition perform_copy ::
  "bool \<Rightarrow> u32 \<Rightarrow> logic_buffer_reader \<Rightarrow> beaglelogicdev
     \<Rightarrow> (int \<times> logic_buffer_reader \<times> beaglelogicdev) option" where
  "perform_copy copy_ok sz reader bldev =
     (case (buffers bldev, rbuf reader) of
        (Some bs, Some i) \<Rightarrow>
          if i < length bs then
            (let count = min (remaining reader) sz
             in if count \<noteq> 0 \<and> \<not> copy_ok then Some (- EFAULT, reader, bldev)
                else
                  (let bs1 = detect_drop i bs;
                       d1 = bldev\<lparr>buffers := Some bs1,
                                  lasterror := detect_drop_error i bs (lasterror bldev)\<rparr>;
                       r1 = reader\<lparr>pos := pos reader + count,
                                   remaining := remaining reader - count\<rparr>
                   in if remaining r1 = 0 then
                        (case nxt (bs1 ! i) of
                           None \<Rightarrow> None
                         | Some n \<Rightarrow>
                             if n < length bs1
                             then Some (sint count,
                                        r1\<lparr>rbuf := Some n, pos := 0, remaining := bsize (bs1 ! n)\<rparr>,
                                        d1)
                             else None)
                      else Some (sint count, r1, d1)))
          else None
      | _ \<Rightarrow> None)"

text \<open>
  The part of \<^verbatim>\<open>beaglelogic_f_read\<close> from the \<^verbatim>\<open>O_NONBLOCK\<close> test on. In blocking
  mode the interrupts of \<open>irqs\<close> are served while the reader sleeps.
\<close>

definition buf_unmapped :: "nat \<Rightarrow> beaglelogicdev \<Rightarrow> bool" where
  "buf_unmapped i bldev =
     (case buffers bldev of
        None \<Rightarrow> False
      | Some bs \<Rightarrow> i < length bs \<and> bstate (bs ! i) = STATE_BL_BUF_UNMAPPED)"

definition read_wait ::
  "bool \<Rightarrow> int list \<Rightarrow> bool \<Rightarrow> u32 \<Rightarrow> logic_buffer_reader \<Rightarrow> beaglelogicdev
     \<Rightarrow> (int \<times> logic_buffer_reader \<times> beaglelogicdev) option" where
  "read_wait nonblock irqs copy_ok sz reader bldev =
     (case (buffers bldev, rbuf reader) of
        (Some bs, Some i) \<Rightarrow>
          if i < length bs then
            (if nonblock then
               (if bstate (bs ! i) \<noteq> STATE_BL_BUF_UNMAPPED then Some (- EAGAIN, reader, bldev)
                else perform_copy copy_ok sz reader bldev)
             else
               (case wait_event_interruptible (buf_unmapped i) irqs bldev of
                  None \<Rightarrow> None
                | Some (r, d) \<Rightarrow>
                    if r \<noteq> 0 then Some (- ERESTARTSYS, reader, d)
                    else perform_copy copy_ok sz reader d))
          else None
      | _ \<Rightarrow> None)"

text \<open>
  \<^verbatim>\<open>beaglelogic_f_read\<close>. \<open>nonblock\<close> is the \<^verbatim>\<open>O_NONBLOCK\<close> flag of the file.
  \<^verbatim>\<open>reader->buf == bldev->buffers\<close> holds when the reader points at entry 0 of a
  non-\<^verbatim>\<open>NULL\<close> array. \<open>None\<close>: an invalid pointer is followed, or the lazy start does
  not return.
\<close>

definition beaglelogic_f_read ::
  "(u32 \<Rightarrow> u32 option) \<Rightarrow> bool \<Rightarrow> int list \<Rightarrow> bool \<Rightarrow> u32 \<Rightarrow> logic_buffer_reader
     \<Rightarrow> beaglelogicdev \<Rightarrow> (int \<times> logic_buffer_reader \<times> beaglelogicdev) option" where
  "beaglelogic_f_read pru nonblock irqs copy_ok sz reader bldev =
     (if state bldev = STATE_BL_ERROR then Some (- EIO, reader, bldev)
      else if pos reader > 0 then perform_copy copy_ok sz reader bldev
      else
        (case rbuf reader of
           None \<Rightarrow>
             (case buffers bldev of
                None \<Rightarrow> None
              | Some bs \<Rightarrow>
                  if bs = [] then None
                  else
                    (let r1 = reader\<lparr>rbuf := Some 0, remaining := bsize (bs ! 0)\<rparr>
                     in if state bldev \<noteq> STATE_BL_RUNNING then
                          (case beaglelogic_start pru bldev of
                             None \<Rightarrow> None
                           | Some (rc, d) \<Rightarrow>
                               if rc \<noteq> 0 then Some (- ENOEXEC, r1, d)
                               else read_wait nonblock irqs copy_ok sz r1 d)
                        else read_wait nonblock irqs copy_ok sz r1 bldev))
         | Some i \<Rightarrow>
             if i = 0 \<and> buffers bldev \<noteq> None \<and> state bldev = STATE_BL_INITIALIZED
             then Some (0, reader, bldev)
             else read_wait nonblock irqs copy_ok sz reader bldev))"

text \<open>
  The \<^verbatim>\<open>SEEK_CUR\<close> loop of \<^verbatim>\<open>beaglelogic_f_llseek\<close>. \<open>i\<close> is a 64-bit
  \<^verbatim>\<open>loff_t\<close>; \<^verbatim>\<open>(uint32_t)i\<close> keeps its low 32 bits. \<open>None\<close>: the loop does not end,
  or an invalid pointer is followed.
\<close>

partial_function (option) seek_cur ::
  "int \<Rightarrow> logic_buffer_reader \<Rightarrow> beaglelogicdev \<Rightarrow> (logic_buffer_reader \<times> beaglelogicdev) option" where
  "seek_cur i reader bldev =
     (if i > 0 then
        (case buffers bldev of
           None \<Rightarrow> None
         | Some bs \<Rightarrow>
             (case rbuf reader of
                None \<Rightarrow> None
              | Some k \<Rightarrow>
                  if k < length bs then
                    (let bs1 = detect_drop k bs;
                         d1 = bldev\<lparr>buffers := Some bs1,
                                    lasterror := detect_drop_error k bs (lasterror bldev)\<rparr>;
                         j = min (word_of_int i :: u32) (remaining reader);
                         r1 = reader\<lparr>pos := pos reader + j, remaining := remaining reader - j\<rparr>
                     in if remaining r1 = 0 then
                          (case nxt (bs1 ! k) of
                             None \<Rightarrow> None
                           | Some n \<Rightarrow>
                               if n < length bs1
                               then seek_cur (i - uint j)
                                      (r1\<lparr>rbuf := Some n, pos := 0, remaining := bsize (bs1 ! n)\<rparr>) d1
                               else None)
                        else seek_cur (i - uint j) r1 d1)
                  else None))
      else Some (reader, bldev))"

definition SEEK_SET :: int where "SEEK_SET = 0"
definition SEEK_CUR :: int where "SEEK_CUR = 1"

text \<open>
  \<^verbatim>\<open>beaglelogic_f_llseek\<close>. The arguments \<open>irqs\<close>, \<open>wake\<close>, \<open>boot0\<close> and
  \<open>boot1\<close> are those of the \<^verbatim>\<open>beaglelogic_stop\<close> that a seek to offset 0 performs.
\<close>

definition beaglelogic_f_llseek ::
  "int list \<Rightarrow> wakeup \<Rightarrow> int \<Rightarrow> int \<Rightarrow> int \<Rightarrow> int \<Rightarrow> logic_buffer_reader \<Rightarrow> beaglelogicdev
     \<Rightarrow> (int \<times> logic_buffer_reader \<times> beaglelogicdev) option" where
  "beaglelogic_f_llseek irqs wake boot0 boot1 offset whence reader bldev =
     (if whence = SEEK_CUR then
        (case seek_cur offset reader bldev of
           None \<Rightarrow> None
         | Some (r, d) \<Rightarrow> Some (offset, r, d))
      else if whence = SEEK_SET \<and> offset = 0 then
        (case beaglelogic_stop irqs wake boot0 boot1 bldev of
           None \<Rightarrow> None
         | Some d \<Rightarrow>
             (case buffers d of
                None \<Rightarrow> None
              | Some bs \<Rightarrow>
                  if bs = [] then None
                  else Some (0, reader\<lparr>rbuf := None, pos := 0, remaining := 0\<rparr>,
                             d\<lparr>buffers := Some (bs[0 := snd (beaglelogic_map_buffer (bs ! 0))])\<rparr>)))
      else Some (- EINVAL, reader, bldev))"

section \<open>Well-formed rings\<close>

text \<open>
  The pointers that the interrupt handler follows are valid: there is a buffer array, the write
  cursor points into it, and so does every \<^verbatim>\<open>next\<close> pointer.
\<close>

definition nxt_ok :: "nat \<Rightarrow> logic_buffer \<Rightarrow> bool" where
  "nxt_ok len b = (case nxt b of None \<Rightarrow> False | Some n \<Rightarrow> n < len)"

definition ring_ok :: "beaglelogicdev \<Rightarrow> bool" where
  "ring_ok bldev =
     (case buffers bldev of
        None \<Rightarrow> False
      | Some bs \<Rightarrow>
          (case bufbeingread bldev of None \<Rightarrow> False | Some i \<Rightarrow> i < length bs) \<and>
          list_all (nxt_ok (length bs)) bs)"

text \<open>A device that runs a capture holds its session lock.\<close>

definition session_locked :: "beaglelogicdev \<Rightarrow> bool" where
  "session_locked bldev \<longleftrightarrow> (state bldev = STATE_BL_RUNNING \<longrightarrow> mutex bldev)"



text \<open>
  A state in which the \<^verbatim>\<open>SEEK_CUR\<close> loop makes no progress: the offset left is positive
  but its low 32 bits are 0, so \<^verbatim>\<open>j\<close> is 0 and nothing changes.
\<close>

definition seek_stuck :: "int \<Rightarrow> logic_buffer_reader \<Rightarrow> beaglelogicdev \<Rightarrow> bool" where
  "seek_stuck i reader bldev \<longleftrightarrow>
     0 < i \<and> (word_of_int i :: u32) = 0 \<and> remaining reader \<noteq> 0 \<and>
     (case buffers bldev of
        None \<Rightarrow> False
      | Some bs \<Rightarrow> (case rbuf reader of None \<Rightarrow> False | Some k \<Rightarrow> k < length bs))"

section \<open>Ring shape\<close>

text \<open>
  Entry \<open>i\<close> of the array as the allocation loop fills it in, and following the
  \<^verbatim>\<open>next\<close> pointer \<open>k\<close> times from entry \<open>i\<close> (\<open>None\<close>: the walk leaves the array).
\<close>

definition fresh_buffer :: "(nat \<Rightarrow> nat \<times> nat) \<Rightarrow> u32 \<Rightarrow> nat \<Rightarrow> nat \<Rightarrow> logic_buffer" where
  "fresh_buffer dma_alloc unit cnt i =
     \<lparr>buf = fst (dma_alloc i), phys_addr = snd (dma_alloc i), bsize = unit,
      bstate = STATE_BL_BUF_MAPPED, index = of_nat i, nxt = Some ((i + 1) mod cnt)\<rparr>"

fun follow :: "logic_buffer list \<Rightarrow> nat \<Rightarrow> nat \<Rightarrow> nat option" where
  "follow bs 0 i = Some i"
| "follow bs (Suc k) i =
     (if i < length bs then (case nxt (bs ! i) of None \<Rightarrow> None | Some n \<Rightarrow> follow bs k n)
      else None)"

section \<open>A oneshot capture read to its end\<close>

text \<open>
  \<open>m\<close> successive blocking reads of \<open>sz\<close> bytes with a writable user buffer; while each
  read sleeps, the interrupts of \<open>irqs\<close> are served. The result lists the return values.
\<close>

fun read_times ::
  "(u32 \<Rightarrow> u32 option) \<Rightarrow> int list \<Rightarrow> u32 \<Rightarrow> nat \<Rightarrow> logic_buffer_reader \<Rightarrow> beaglelogicdev
     \<Rightarrow> (int list \<times> logic_buffer_reader \<times> beaglelogicdev) option" where
  "read_times pru irqs sz 0 reader bldev = Some ([], reader, bldev)"
| "read_times pru irqs sz (Suc m) reader bldev =
     (case beaglelogic_f_read pru False irqs True sz reader bldev of
        None \<Rightarrow> None
      | Some (rv, r, d) \<Rightarrow>
          (case read_times pru irqs sz m r d of
             None \<Rightarrow> None
           | Some (rvs, r', d') \<Rightarrow> Some (rv # rvs, r', d')))"

text \<open>
  The driver's side of a oneshot session on a ring of \<open>n\<close> buffers of \<open>unit\<close> bytes after
  \<open>m\<close> buffer-ready signals: the session runs and holds the lock, the first \<open>m\<close> buffers
  are Unmapped and the others Mapped, and the write cursor stands on buffer \<open>m\<close>, or on the
  last buffer once all are filled.
\<close>

definition oneshot_inv :: "nat \<Rightarrow> u32 \<Rightarrow> int \<Rightarrow> int \<Rightarrow> nat \<Rightarrow> beaglelogicdev \<Rightarrow> bool" where
  "oneshot_inv n unit q1 q2 m bldev \<longleftrightarrow>
     state bldev = STATE_BL_RUNNING \<and> mutex bldev \<and>
     triggerflags bldev = BL_TRIGGERFLAGS_ONESHOT \<and>
     from_bl_irq_1 bldev = q1 \<and> from_bl_irq_2 bldev = q2 \<and>
     bufbeingread bldev = Some (min m (n - 1)) \<and>
     (case buffers bldev of
        None \<Rightarrow> False
      | Some bs \<Rightarrow>
          length bs = n \<and>
          (\<forall>i < n. nxt (bs ! i) = Some ((i + 1) mod n) \<and> index (bs ! i) = of_nat i \<and>
                    bsize (bs ! i) = unit \<and>
                    bstate (bs ! i) = (if i < m then STATE_BL_BUF_UNMAPPED
                                       else STATE_BL_BUF_MAPPED)))"

text \<open>
  A session as the driver sees it: interrupts served between the calls, and reads. A read
  carries its \<^verbatim>\<open>O_NONBLOCK\<close> flag, the interrupts served while it sleeps, whether the user
  buffer can be written, and its length. \<open>run_session\<close> performs the events in order and
  lists the return values of the reads (\<open>None\<close>: a call does not return).
\<close>

datatype session_event = Irq int | Read bool "int list" bool u32

fun run_session ::
  "(u32 \<Rightarrow> u32 option) \<Rightarrow> session_event list \<Rightarrow> logic_buffer_reader \<Rightarrow> beaglelogicdev
     \<Rightarrow> (int list \<times> logic_buffer_reader \<times> beaglelogicdev) option" where
  "run_session pru [] reader bldev = Some ([], reader, bldev)"
| "run_session pru (Irq irqno # evs) reader bldev =
     (case beaglelogic_serve_irq irqno bldev of
        None \<Rightarrow> None
      | Some d \<Rightarrow> run_session pru evs reader d)"
| "run_session pru (Read nonblock irqs copy_ok sz # evs) reader bldev =
     (case beaglelogic_f_read pru nonblock irqs copy_ok sz reader bldev of
        None \<Rightarrow> None
      | Some (rv, r, d) \<Rightarrow>
          (case run_session pru evs r d of
             None \<Rightarrow> None
           | Some (rvs, r', d') \<Rightarrow> Some (rv # rvs, r', d')))"

text \<open>
  A ring of \<open>n\<close> buffers of \<open>unit\<close> bytes each, linked in a circle as the allocation
  loop links them; the buffer states and the write cursor are free.
\<close>

definition ring_shape :: "nat \<Rightarrow> u32 \<Rightarrow> beaglelogicdev \<Rightarrow> bool" where
  "ring_shape n unit bldev \<longleftrightarrow>
     (case buffers bldev of
        None \<Rightarrow> False
      | Some bs \<Rightarrow>
          length bs = n \<and>
          (\<forall>i < n. nxt (bs ! i) = Some ((i + 1) mod n) \<and> bsize (bs ! i) = unit))"

section \<open>Concrete devices\<close>

text \<open>
  The device as \<^verbatim>\<open>beaglelogic_probe\<close> leaves it: 200 MHz core clock, the default
  configuration, no buffers, state Initialized. The firmware advertised 128 buffers (the probe
  accepts 1 to 255); the interrupt lines are numbered 1 and 2 here.
\<close>

definition probed_dev :: beaglelogicdev where
  "probed_dev =
     \<lparr>from_bl_irq_1 = 1, from_bl_irq_2 = 2, coreclockfreq = 200000000, mutex = False,
      buffers = None, lastbufready = None, bufbeingread = None, bufcount = 0,
      cxt_pru = \<lparr>cmd = 0, samplediv = 0, cxt_sampleunit = 0, cxt_triggerflags = 0, stop_flag = 0\<rparr>,
      maxbufcount = 128, bufunitsize = 4194304, samplerate = 100000000,
      triggerflags = 0, sampleunit = 1, state = STATE_BL_INITIALIZED, lasterror = 0,
      dma_live = []\<rparr>"

text \<open>
  The probe requests both interrupt lines before it runs the boot handshake, with the state
  still Disabled.
\<close>

definition disabled_dev :: beaglelogicdev where
  "disabled_dev = probed_dev\<lparr>state := STATE_BL_DISABLED\<rparr>"

text \<open>A firmware that acknowledges every command with response 0.\<close>

definition pru_ack :: "u32 \<Rightarrow> u32 option" where
  "pru_ack c = Some 0"

text \<open>A DMA allocator that never fails and hands out consecutive 4 MiB regions.\<close>

definition dma_alloc_ok :: "nat \<Rightarrow> nat \<times> nat" where
  "dma_alloc_ok i = (3221225472 + i * 4194304, 2415919104 + i * 4194304)"

text \<open>
  The ring of two 4 MiB buffers that \<^verbatim>\<open>beaglelogic_memalloc\<close> builds from
  \<open>dma_alloc_ok\<close>, with the two buffer states as parameters; the probed device holding such
  a ring (lemma \<open>memalloc_two_buffers\<close>); and that device in a capture session, as
  \<^verbatim>\<open>beaglelogic_start\<close> leaves it (lemma \<open>start_two_buffers\<close>), with the write cursor and
  \<^verbatim>\<open>lastbufready\<close> as parameters.
\<close>

definition ring2 :: "bufstates \<Rightarrow> bufstates \<Rightarrow> logic_buffer list" where
  "ring2 s0 s1 =
     [\<lparr>buf = 3221225472, phys_addr = 2415919104, bsize = 4194304, bstate = s0, index = 0,
       nxt = Some 1\<rparr>,
      \<lparr>buf = 3225419776, phys_addr = 2420113408, bsize = 4194304, bstate = s1, index = 1,
       nxt = Some 0\<rparr>]"

definition ring_dev :: "u32 \<Rightarrow> logic_buffer list \<Rightarrow> beaglelogicdev" where
  "ring_dev trig bs =
     probed_dev\<lparr>triggerflags := trig, buffers := Some bs, bufcount := 2,
                dma_live := [(3225419776, 4194304), (3221225472, 4194304)]\<rparr>"

definition session_dev ::
  "u32 \<Rightarrow> logic_buffer list \<Rightarrow> nat \<Rightarrow> nat option \<Rightarrow> beaglelogicdev" where
  "session_dev trig bs cur lst =
     (ring_dev trig bs)
       \<lparr>mutex := True, bufbeingread := Some cur, lastbufready := lst, state := STATE_BL_RUNNING,
        cxt_pru := \<lparr>cmd = 0, samplediv = 1, cxt_sampleunit = 1, cxt_triggerflags = trig,
                    stop_flag = 0\<rparr>\<rparr>"

text \<open>A DMA allocator whose second allocation fails.\<close>

definition dma_alloc_second_fails :: "nat \<Rightarrow> nat \<times> nat" where
  "dma_alloc_second_fails i = (if i = 0 then (3221225472, 2415919104) else (0, 0))"

text \<open>
  The reader as \<^verbatim>\<open>beaglelogic_f_open\<close> creates it, and a reader of the two-buffer ring
  that stands \<open>p\<close> bytes into buffer \<open>k\<close>.
\<close>

definition fresh_reader :: logic_buffer_reader where
  "fresh_reader = \<lparr>rbuf = None, pos = 0, remaining = 0\<rparr>"

definition reader_at :: "nat \<Rightarrow> u32 \<Rightarrow> logic_buffer_reader" where
  "reader_at k p = \<lparr>rbuf = Some k, pos = p, remaining = 4194304 - p\<rparr>"

section \<open>Properties\<close>

lemmas bl_states =
  STATE_BL_DISABLED_def STATE_BL_INITIALIZED_def STATE_BL_MEMALLOCD_def STATE_BL_ARMED_def
  STATE_BL_RUNNING_def STATE_BL_REQUEST_STOP_def STATE_BL_ERROR_def

lemmas errnos =
  EIO_def ENOEXEC_def EAGAIN_def ENOMEM_def EFAULT_def EBUSY_def EINVAL_def ERESTARTSYS_def

subsection \<open>Capture-complete signal\<close>

text \<open>
  C2, as claimed, at a concrete input: a capture-complete signal that arrives while the device
  is Disabled leaves the device as it is; the state stays Disabled and does not become Error.
\<close>

theorem completion_in_disabled_is_ignored:
  "state disabled_dev = STATE_BL_DISABLED \<and>
   beaglelogic_serve_irq (from_bl_irq_2 disabled_dev) disabled_dev = Some disabled_dev \<and>
   state disabled_dev \<noteq> STATE_BL_ERROR"
  by (simp add: disabled_dev_def probed_dev_def beaglelogic_serve_irq_def bl_states)

text \<open>
  C2, amended: a capture-complete signal received in a state up to Armed (Disabled,
  Initialized, MemAllocd, Armed) is the acknowledgement of the configuration and changes
  nothing; received in a state above Armed that is neither Running nor RequestStop (that is,
  in Error), it sets the device state to Error.
\<close>

theorem completion_irq_outside_session:
  assumes "irqno = from_bl_irq_2 bldev" and "irqno \<noteq> from_bl_irq_1 bldev"
  shows "(state bldev \<le> STATE_BL_ARMED \<longrightarrow> beaglelogic_serve_irq irqno bldev = Some bldev) \<and>
         (STATE_BL_ARMED < state bldev \<and> state bldev \<noteq> STATE_BL_RUNNING \<and>
          state bldev \<noteq> STATE_BL_REQUEST_STOP
            \<longrightarrow> beaglelogic_serve_irq irqno bldev = Some (bldev\<lparr>state := STATE_BL_ERROR\<rparr>))"
  using assms by (auto simp: beaglelogic_serve_irq_def Let_def)

theorem completion_irq_outside_session_witness:
  "(2::int) = from_bl_irq_2 probed_dev \<and> (2::int) \<noteq> from_bl_irq_1 probed_dev \<and>
   state probed_dev \<le> STATE_BL_ARMED \<and>
   beaglelogic_serve_irq 2 probed_dev = Some probed_dev \<and>
   STATE_BL_ARMED < state (probed_dev\<lparr>state := STATE_BL_ERROR\<rparr>) \<and>
   beaglelogic_serve_irq 2 (probed_dev\<lparr>state := STATE_BL_ERROR\<rparr>)
     = Some (probed_dev\<lparr>state := STATE_BL_ERROR\<rparr>)"
  using completion_irq_outside_session [of 2 probed_dev]
        completion_irq_outside_session [of 2 "probed_dev\<lparr>state := STATE_BL_ERROR\<rparr>"]
  by (simp add: probed_dev_def bl_states)

subsection \<open>Sample rate\<close>

lemma div_div_div_nat:
  fixes H d :: nat
  shows "H div (H div (H div d)) = H div d"
proof (cases "d = 0 \<or> H div d = 0")
  case True
  then show ?thesis by auto
next
  case False
  then have d: "0 < d" and s: "0 < H div d" by auto
  let ?s = "H div d"
  have "d * ?s \<le> H" by simp
  then have 1: "d \<le> H div ?s" using s
    by (simp add: less_eq_div_iff_mult_less_eq mult.commute)
  then have pos: "0 < H div ?s" using d by linarith
  have 2: "H div (H div ?s) \<le> ?s" using 1 d
    by (simp add: div_le_mono2)
  have "(H div ?s) * ?s \<le> H" by simp
  then have 3: "?s \<le> H div (H div ?s)" using pos
    by (simp add: less_eq_div_iff_mult_less_eq)
  from 2 3 show ?thesis by simp
qed

lemma div_div_div_word:
  fixes H d :: u32
  shows "H div (H div (H div d)) = H div d"
  using div_div_div_nat [of "unat H" "unat d"]
  by (simp add: word_eq_iff_unsigned [where ?'a = nat] unat_div)

lemma samplerate_realizable_example:
  "\<exists>d. samplerate probed_dev = (coreclockfreq probed_dev div 2) div d"
proof
  show "samplerate probed_dev = (coreclockfreq probed_dev div 2) div 1"
    by (simp add: probed_dev_def)
qed

lemma set_get_realizable:
  assumes "\<exists>d. samplerate bldev = (coreclockfreq bldev div 2) div d"
  shows "snd (beaglelogic_set_samplerate (beaglelogic_get_samplerate bldev) bldev) = bldev"
proof -
  from assms obtain d where d: "samplerate bldev = (coreclockfreq bldev div 2) div d" ..
  have "(coreclockfreq bldev div 2) div ((coreclockfreq bldev div 2) div samplerate bldev)
          = samplerate bldev"
    unfolding d by (rule div_div_div_word)
  then show ?thesis
    by (simp add: beaglelogic_set_samplerate_def beaglelogic_get_samplerate_def
        mutex_trylock_def mutex_unlock_def)
qed

lemma set_result_realizable:
  "snd (beaglelogic_set_samplerate r bldev) = bldev \<or>
   (\<exists>d. samplerate (snd (beaglelogic_set_samplerate r bldev))
          = (coreclockfreq (snd (beaglelogic_set_samplerate r bldev)) div 2) div d)"
  by (auto simp: beaglelogic_set_samplerate_def mutex_trylock_def mutex_unlock_def)

lemma set_get_twice:
  "snd (beaglelogic_set_samplerate
          (beaglelogic_get_samplerate
             (snd (beaglelogic_set_samplerate (beaglelogic_get_samplerate bldev) bldev)))
          (snd (beaglelogic_set_samplerate (beaglelogic_get_samplerate bldev) bldev)))
     = snd (beaglelogic_set_samplerate (beaglelogic_get_samplerate bldev) bldev)"
  using set_result_realizable [of "beaglelogic_get_samplerate bldev" bldev]
proof
  assume "snd (beaglelogic_set_samplerate (beaglelogic_get_samplerate bldev) bldev) = bldev"
  then show ?thesis by simp
next
  assume "\<exists>d. samplerate (snd (beaglelogic_set_samplerate (beaglelogic_get_samplerate bldev) bldev))
          = (coreclockfreq (snd (beaglelogic_set_samplerate (beaglelogic_get_samplerate bldev) bldev))
               div 2) div d"
  then show ?thesis by (rule set_get_realizable)
qed

text \<open>
  C8. A stored rate is realizable when it is the half core clock divided by some divisor; the
  rate stored by the probe and every rate stored by \<^verbatim>\<open>beaglelogic_set_samplerate\<close> is.
  (1) Setting the rate to the value read back leaves a device with a realizable rate
  unchanged; and on any device, doing it a second time changes nothing more.
  (2) A request \<open>r\<close> in \<open>[1, F/2]\<close> on a device that is not busy stores
  \<open>(F/2) / ((F/2) / r)\<close>. (3) A request outside \<open>[1, F/2]\<close> is rejected with
  \<^verbatim>\<open>-EINVAL\<close> and the device is unchanged.
\<close>

theorem samplerate_set_get:
  "((\<exists>d. samplerate bldev = (coreclockfreq bldev div 2) div d) \<longrightarrow>
      snd (beaglelogic_set_samplerate (beaglelogic_get_samplerate bldev) bldev) = bldev) \<and>
   snd (beaglelogic_set_samplerate
          (beaglelogic_get_samplerate
             (snd (beaglelogic_set_samplerate (beaglelogic_get_samplerate bldev) bldev)))
          (snd (beaglelogic_set_samplerate (beaglelogic_get_samplerate bldev) bldev)))
     = snd (beaglelogic_set_samplerate (beaglelogic_get_samplerate bldev) bldev) \<and>
   (1 \<le> r \<and> r \<le> coreclockfreq bldev div 2 \<and> \<not> mutex bldev \<longrightarrow>
      beaglelogic_set_samplerate r bldev =
        (0, bldev\<lparr>samplerate :=
                     (coreclockfreq bldev div 2) div ((coreclockfreq bldev div 2) div r)\<rparr>)) \<and>
   (r < 1 \<or> coreclockfreq bldev div 2 < r \<longrightarrow>
      beaglelogic_set_samplerate r bldev = (- EINVAL, bldev))"
proof (intro conjI impI)
  assume "\<exists>d. samplerate bldev = (coreclockfreq bldev div 2) div d"
  then show "snd (beaglelogic_set_samplerate (beaglelogic_get_samplerate bldev) bldev) = bldev"
    by (rule set_get_realizable)
next
  show "snd (beaglelogic_set_samplerate
          (beaglelogic_get_samplerate
             (snd (beaglelogic_set_samplerate (beaglelogic_get_samplerate bldev) bldev)))
          (snd (beaglelogic_set_samplerate (beaglelogic_get_samplerate bldev) bldev)))
     = snd (beaglelogic_set_samplerate (beaglelogic_get_samplerate bldev) bldev)"
    by (rule set_get_twice)
next
  assume "1 \<le> r \<and> r \<le> coreclockfreq bldev div 2 \<and> \<not> mutex bldev"
  then show "beaglelogic_set_samplerate r bldev =
        (0, bldev\<lparr>samplerate :=
                     (coreclockfreq bldev div 2) div ((coreclockfreq bldev div 2) div r)\<rparr>)"
    by (auto simp: beaglelogic_set_samplerate_def mutex_trylock_def mutex_unlock_def not_less)
next
  assume "r < 1 \<or> coreclockfreq bldev div 2 < r"
  then show "beaglelogic_set_samplerate r bldev = (- EINVAL, bldev)"
    by (auto simp: beaglelogic_set_samplerate_def)
qed

text \<open>
  C8 at the probed device (200 MHz clock, 100 MHz stored): writing back the rate read changes
  nothing, a request of 30 MHz stores 33333333 Hz (divisor 3), a request of 0 Hz is rejected.
\<close>

theorem samplerate_set_get_witness:
  "(\<exists>d. samplerate probed_dev = (coreclockfreq probed_dev div 2) div d) \<and>
   snd (beaglelogic_set_samplerate (beaglelogic_get_samplerate probed_dev) probed_dev)
     = probed_dev \<and>
   beaglelogic_set_samplerate 30000000 probed_dev
     = (0, probed_dev\<lparr>samplerate := 33333333\<rparr>) \<and>
   beaglelogic_set_samplerate 0 probed_dev = (- EINVAL, probed_dev)"
  using samplerate_set_get [of probed_dev 30000000] samplerate_set_get [of probed_dev 0]
    samplerate_realizable_example
  by (simp add: probed_dev_def)

subsection \<open>The concrete devices are reached by the driver\<close>

declare alloc_loop.simps [simp del] free_loop.simps [simp del]

lemma alloc_loop_two:
  "alloc_loop dma_alloc_ok 4194304 2 0 (replicate 2 zeroed_buffer) []
     = (True, ring2 STATE_BL_BUF_MAPPED STATE_BL_BUF_MAPPED,
        [(3225419776, 4194304), (3221225472, 4194304)])"
proof -
  have r: "replicate 2 zeroed_buffer = [zeroed_buffer, zeroed_buffer]"
    by (simp add: numeral_2_eq_2)
  have m: "Suc (Suc 0) mod 2 = 0" by simp
  show ?thesis
    unfolding r
    by (simp add: alloc_loop.simps [of _ _ _ 0] alloc_loop.simps [of _ _ _ "Suc 0"]
        alloc_loop.simps [of _ _ _ "Suc (Suc 0)"] zeroed_buffer_def m
        dma_alloc_ok_def ring2_def)
qed

lemma memalloc_two_buffers:
  "beaglelogic_memalloc True dma_alloc_ok 8388608 (probed_dev\<lparr>triggerflags := t\<rparr>)
     = Some (0, ring_dev t (ring2 STATE_BL_BUF_MAPPED STATE_BL_BUF_MAPPED))"
proof -
  have q: "DIV_ROUND_UP 8388608 4194304 = Some 2" by (simp add: DIV_ROUND_UP_def)
  show ?thesis
    by (simp add: beaglelogic_memalloc_def mutex_trylock_def probed_dev_def q
      mutex_unlock_def alloc_loop_two ring_dev_def Let_def)
qed

lemma start_two_buffers:
  "beaglelogic_start pru_ack (ring_dev t (ring2 s0 s1))
     = Some (0, session_dev t (ring2 s0 s1) 0 None)"
  by (simp add: beaglelogic_start_def mutex_lock_def ring_dev_def probed_dev_def
      beaglelogic_write_configuration_def beaglelogic_send_cmd_def pru_ack_def session_dev_def
      Let_def)

lemmas concrete_devs = session_dev_def ring_dev_def probed_dev_def ring2_def

subsection \<open>Buffer-ready signal\<close>

text \<open>
  C1 at the failing input: a continuous session on a fresh ring of two buffers. The first
  buffer-ready signal marks buffer 0 Unmapped and moves the cursor to buffer 1; the second
  marks buffer 1 Unmapped and moves the cursor to buffer 0, the next buffer, whose state stays
  Unmapped: the handler calls \<^verbatim>\<open>beaglelogic_map_buffer\<close> on it, which does not set it
  to Mapped.
\<close>

theorem buffer_ready_does_not_rearm:
  "beaglelogic_serve_irq 1
     (session_dev BL_TRIGGERFLAGS_CONTINUOUS (ring2 STATE_BL_BUF_MAPPED STATE_BL_BUF_MAPPED) 0 None)
     = Some (session_dev BL_TRIGGERFLAGS_CONTINUOUS
               (ring2 STATE_BL_BUF_UNMAPPED STATE_BL_BUF_MAPPED) 1 (Some 0)) \<and>
   beaglelogic_serve_irq 1
     (session_dev BL_TRIGGERFLAGS_CONTINUOUS
        (ring2 STATE_BL_BUF_UNMAPPED STATE_BL_BUF_MAPPED) 1 (Some 0))
     = Some (session_dev BL_TRIGGERFLAGS_CONTINUOUS
               (ring2 STATE_BL_BUF_UNMAPPED STATE_BL_BUF_UNMAPPED) 0 (Some 1)) \<and>
   bstate (ring2 STATE_BL_BUF_UNMAPPED STATE_BL_BUF_UNMAPPED ! 0) \<noteq> STATE_BL_BUF_MAPPED"
  by (simp add: beaglelogic_serve_irq_def concrete_devs
      irq_advance_def beaglelogic_unmap_buffer_def beaglelogic_map_buffer_def Let_def
      BL_TRIGGERFLAGS_CONTINUOUS_def BL_TRIGGERFLAGS_ONESHOT_def)

text \<open>
  What the buffer-ready branch does in general, while the write cursor and the \<^verbatim>\<open>next\<close>
  pointer of the current buffer are valid: the just-completed buffer is recorded as
  \<^verbatim>\<open>lastbufready\<close> and its state is set to Unmapped; unless the session is oneshot and
  the next buffer has index 0, the write cursor advances to the next buffer. Nothing else
  changes.
\<close>

lemma buffer_ready_irq:
  assumes "buffers bldev = Some bs" and "bufbeingread bldev = Some i" and "i < length bs"
    and "nxt (bs ! i) = Some n" and "n < length bs"
  shows "beaglelogic_serve_irq (from_bl_irq_1 bldev) bldev =
           Some (bldev\<lparr>lastbufready := Some i,
                       buffers := Some (bs[i := (bs ! i)\<lparr>bstate := STATE_BL_BUF_UNMAPPED\<rparr>]),
                       bufbeingread :=
                         (if triggerflags bldev = BL_TRIGGERFLAGS_ONESHOT \<and> index (bs ! n) = 0
                          then Some i else Some n)\<rparr>)"
proof -
  let ?bs1 = "bs[i := beaglelogic_unmap_buffer (bs ! i)]"
  have n1: "nxt (?bs1 ! i) = Some n" using assms by (simp add: beaglelogic_unmap_buffer_def)
  have ix: "index (?bs1 ! n) = index (bs ! n)"
    using assms by (cases "n = i") (simp_all add: beaglelogic_unmap_buffer_def)
  have mp: "?bs1[n := snd (beaglelogic_map_buffer (?bs1 ! n))] = ?bs1"
    by (simp add: beaglelogic_map_buffer_def)
  show ?thesis
    using assms n1 ix mp
    by (simp add: beaglelogic_serve_irq_def irq_advance_def Let_def beaglelogic_unmap_buffer_def)
qed

text \<open>
  At the last buffer of a oneshot session on the two-buffer ring: buffer 1 becomes Unmapped
  and the cursor stays on it, because the next buffer has index 0.
\<close>

lemma buffer_ready_irq_example:
  "buffers (session_dev BL_TRIGGERFLAGS_ONESHOT
              (ring2 STATE_BL_BUF_UNMAPPED STATE_BL_BUF_MAPPED) 1 (Some 0))
     = Some (ring2 STATE_BL_BUF_UNMAPPED STATE_BL_BUF_MAPPED) \<and>
   bufbeingread (session_dev BL_TRIGGERFLAGS_ONESHOT
              (ring2 STATE_BL_BUF_UNMAPPED STATE_BL_BUF_MAPPED) 1 (Some 0)) = Some 1 \<and>
   1 < length (ring2 STATE_BL_BUF_UNMAPPED STATE_BL_BUF_MAPPED) \<and>
   nxt (ring2 STATE_BL_BUF_UNMAPPED STATE_BL_BUF_MAPPED ! 1) = Some 0 \<and>
   0 < length (ring2 STATE_BL_BUF_UNMAPPED STATE_BL_BUF_MAPPED) \<and>
   beaglelogic_serve_irq 1
     (session_dev BL_TRIGGERFLAGS_ONESHOT (ring2 STATE_BL_BUF_UNMAPPED STATE_BL_BUF_MAPPED) 1 (Some 0))
     = Some (session_dev BL_TRIGGERFLAGS_ONESHOT
               (ring2 STATE_BL_BUF_UNMAPPED STATE_BL_BUF_UNMAPPED) 1 (Some 1))"
  using buffer_ready_irq
    [of "session_dev BL_TRIGGERFLAGS_ONESHOT (ring2 STATE_BL_BUF_UNMAPPED STATE_BL_BUF_MAPPED) 1 (Some 0)"
        "ring2 STATE_BL_BUF_UNMAPPED STATE_BL_BUF_MAPPED" 1 0]
  by (simp add: concrete_devs BL_TRIGGERFLAGS_ONESHOT_def)

subsection \<open>Start\<close>

text \<open>
  C7, as claimed, at a concrete input: the session lock of the device is held (a session is
  running) and \<^verbatim>\<open>beaglelogic_start\<close> is called. The call does not return: it sleeps in
  \<^verbatim>\<open>mutex_lock\<close>; in particular it does not return \<^verbatim>\<open>-EBUSY\<close>.
\<close>

theorem start_on_held_lock_sleeps:
  "mutex (session_dev BL_TRIGGERFLAGS_CONTINUOUS
            (ring2 STATE_BL_BUF_MAPPED STATE_BL_BUF_MAPPED) 0 None) \<and>
   beaglelogic_start pru_ack
     (session_dev BL_TRIGGERFLAGS_CONTINUOUS
        (ring2 STATE_BL_BUF_MAPPED STATE_BL_BUF_MAPPED) 0 None) = None"
  by (simp add: beaglelogic_start_def mutex_lock_def concrete_devs)

text \<open>
  C7, amended: \<^verbatim>\<open>beaglelogic_start\<close> takes the session lock with the blocking
  \<^verbatim>\<open>mutex_lock\<close>. A start attempt made while the lock is held does not return until the
  lock is released; no start attempt returns Busy. On a free lock (and a nonzero sample rate)
  start returns 0 with the lock held and the device Running.
\<close>

theorem start_never_busy:
  "(mutex bldev \<longrightarrow> beaglelogic_start pru bldev = None) \<and>
   (\<forall>d. beaglelogic_start pru bldev \<noteq> Some (- EBUSY, d)) \<and>
   (\<not> mutex bldev \<and> samplerate bldev \<noteq> 0 \<longrightarrow>
      (\<exists>d. beaglelogic_start pru bldev = Some (0, d) \<and> mutex d \<and> state d = STATE_BL_RUNNING))"
  by (auto simp: beaglelogic_start_def mutex_lock_def beaglelogic_write_configuration_def Let_def
        beaglelogic_send_cmd_def EBUSY_def mutex_unlock_def split: option.splits)

text \<open>
  C7 on the two-buffer device: with the lock free start returns 0, holds the lock and the
  device runs; a second start on the resulting device does not return.
\<close>

theorem start_never_busy_witness:
  "\<not> mutex (ring_dev 0 (ring2 STATE_BL_BUF_MAPPED STATE_BL_BUF_MAPPED)) \<and>
   samplerate (ring_dev 0 (ring2 STATE_BL_BUF_MAPPED STATE_BL_BUF_MAPPED)) \<noteq> 0 \<and>
   (\<exists>d. beaglelogic_start pru_ack (ring_dev 0 (ring2 STATE_BL_BUF_MAPPED STATE_BL_BUF_MAPPED))
           = Some (0, d) \<and> mutex d \<and> state d = STATE_BL_RUNNING) \<and>
   mutex (session_dev 0 (ring2 STATE_BL_BUF_MAPPED STATE_BL_BUF_MAPPED) 0 None) \<and>
   beaglelogic_start pru_ack (session_dev 0 (ring2 STATE_BL_BUF_MAPPED STATE_BL_BUF_MAPPED) 0 None)
     = None"
  using start_never_busy [of "ring_dev 0 (ring2 STATE_BL_BUF_MAPPED STATE_BL_BUF_MAPPED)" pru_ack]
    start_never_busy [of "session_dev 0 (ring2 STATE_BL_BUF_MAPPED STATE_BL_BUF_MAPPED) 0 None" pru_ack]
  by (simp add: concrete_devs)

subsection \<open>Stop\<close>

lemma ring_ok_nxt:
  assumes "list_all (nxt_ok (length bs)) bs" and "i < length bs"
  shows "\<exists>n. nxt (bs ! i) = Some n \<and> n < length bs"
  using assms by (auto simp: list_all_length nxt_ok_def split: option.splits)

lemma list_all_unmap:
  assumes "list_all (nxt_ok (length bs)) bs" and "i < length bs"
  shows "list_all (nxt_ok (length bs)) (bs[i := (bs ! i)\<lparr>bstate := s\<rparr>])"
  using assms by (auto simp: list_all_length nth_list_update nxt_ok_def)

text \<open>On a well-formed ring the interrupt handler returns and keeps the ring well-formed.\<close>

lemma serve_irq_ring_ok:
  assumes "ring_ok bldev"
  shows "\<exists>d. beaglelogic_serve_irq irqno bldev = Some d \<and> ring_ok d \<and>
             (state bldev = STATE_BL_REQUEST_STOP \<longrightarrow>
                state d = STATE_BL_REQUEST_STOP \<or> state d = STATE_BL_INITIALIZED)"
proof -
  from assms obtain bs i where bs: "buffers bldev = Some bs" and i: "bufbeingread bldev = Some i"
    and il: "i < length bs"
    and la: "list_all (nxt_ok (length bs)) bs"
    by (auto simp: ring_ok_def split: option.splits)
  from ring_ok_nxt [OF la il] obtain n where n: "nxt (bs ! i) = Some n" "n < length bs" by blast
  let ?bs1 = "bs[i := (bs ! i)\<lparr>bstate := STATE_BL_BUF_UNMAPPED\<rparr>]"
  have la1: "list_all (nxt_ok (length bs)) ?bs1"
    by (rule list_all_unmap [OF la il])
  have mp: "\<And>k. ?bs1[k := snd (beaglelogic_map_buffer (?bs1 ! k))] = ?bs1"
    by (simp add: beaglelogic_map_buffer_def)
  have n1: "nxt (?bs1 ! i) = Some n" using n il by simp
  show ?thesis
  proof (cases "irqno = from_bl_irq_1 bldev")
    case True
    then show ?thesis
      using bs i il n n1 la1 mp
      by (auto simp: beaglelogic_serve_irq_def irq_advance_def Let_def beaglelogic_unmap_buffer_def
          ring_ok_def)
  next
    case False
    then show ?thesis
      using assms
      by (auto simp: beaglelogic_serve_irq_def Let_def ring_ok_def mutex_unlock_def
          split: option.splits)
  qed
qed

text \<open>
  An interrupt served while a stop is pending (state RequestStop) on a well-formed ring: the
  handler returns, keeps the ring well-formed and the interrupt numbers, and sets the state to
  Initialized exactly when the interrupt is the capture-complete signal.
\<close>

lemma serve_irq_request_stop:
  assumes "ring_ok bldev" and "state bldev = STATE_BL_REQUEST_STOP"
  shows "\<exists>d. beaglelogic_serve_irq irqno bldev = Some d \<and> ring_ok d \<and>
             from_bl_irq_1 d = from_bl_irq_1 bldev \<and> from_bl_irq_2 d = from_bl_irq_2 bldev \<and>
             state d = (if irqno \<noteq> from_bl_irq_1 bldev \<and> irqno = from_bl_irq_2 bldev
                        then STATE_BL_INITIALIZED else STATE_BL_REQUEST_STOP)"
proof -
  from assms obtain bs i where bs: "buffers bldev = Some bs" and i: "bufbeingread bldev = Some i"
    and il: "i < length bs"
    and la: "list_all (nxt_ok (length bs)) bs"
    by (auto simp: ring_ok_def split: option.splits)
  from ring_ok_nxt [OF la il] obtain n where n: "nxt (bs ! i) = Some n" "n < length bs" by blast
  let ?bs1 = "bs[i := (bs ! i)\<lparr>bstate := STATE_BL_BUF_UNMAPPED\<rparr>]"
  have la1: "list_all (nxt_ok (length bs)) ?bs1"
    by (rule list_all_unmap [OF la il])
  have mp: "\<And>k. ?bs1[k := snd (beaglelogic_map_buffer (?bs1 ! k))] = ?bs1"
    by (simp add: beaglelogic_map_buffer_def)
  have n1: "nxt (?bs1 ! i) = Some n" using n il by simp
  show ?thesis
  proof (cases "irqno = from_bl_irq_1 bldev")
    case True
    then show ?thesis
      using bs i il n n1 la1 mp assms(2)
      by (auto simp: beaglelogic_serve_irq_def irq_advance_def Let_def beaglelogic_unmap_buffer_def
          ring_ok_def)
  next
    case False
    then show ?thesis
      using assms
      by (auto simp: beaglelogic_serve_irq_def Let_def ring_ok_def mutex_unlock_def bl_states
          split: option.splits)
  qed
qed

text \<open>
  An interrupt other than the buffer-ready signal follows no buffer pointer: it is served
  whether or not there is a ring.
\<close>

lemma serve_irq_other:
  assumes "irqno \<noteq> from_bl_irq_1 bldev" and "state bldev = STATE_BL_REQUEST_STOP"
  shows "\<exists>d. beaglelogic_serve_irq irqno bldev = Some d \<and>
             (ring_ok bldev \<longrightarrow> ring_ok d) \<and>
             from_bl_irq_1 d = from_bl_irq_1 bldev \<and> from_bl_irq_2 d = from_bl_irq_2 bldev \<and>
             state d = (if irqno = from_bl_irq_2 bldev
                        then STATE_BL_INITIALIZED else STATE_BL_REQUEST_STOP)"
  using assms
  by (auto simp: beaglelogic_serve_irq_def Let_def ring_ok_def mutex_unlock_def bl_states
      split: option.splits)

text \<open>
  The wait of \<^verbatim>\<open>beaglelogic_stop\<close> ends, on a well-formed ring or when no buffer-ready
  signal arrives. The condition is reached exactly when the capture-complete signal is among
  the interrupts that arrive during the wait; then the state is Initialized, and otherwise it is
  still RequestStop.
\<close>

lemma sleep_until_completion:
  assumes "ring_ok bldev \<or> from_bl_irq_1 bldev \<notin> set irqs"
    and "state bldev = STATE_BL_REQUEST_STOP"
  shows "\<exists>r d. sleep_until (\<lambda>d. state d = STATE_BL_INITIALIZED) irqs bldev = Some (r, d) \<and>
            (r \<longleftrightarrow> from_bl_irq_2 bldev \<in> set irqs \<and> from_bl_irq_2 bldev \<noteq> from_bl_irq_1 bldev) \<and>
            (r \<longrightarrow> state d = STATE_BL_INITIALIZED) \<and>
            (\<not> r \<longrightarrow> state d = STATE_BL_REQUEST_STOP)"
  using assms
proof (induction irqs arbitrary: bldev)
  case Nil
  then show ?case by (auto simp: STATE_BL_REQUEST_STOP_def STATE_BL_INITIALIZED_def)
next
  case (Cons irqno irqs)
  have "\<exists>d1. beaglelogic_serve_irq irqno bldev = Some d1 \<and>
          (ring_ok d1 \<or> from_bl_irq_1 d1 \<notin> set irqs) \<and>
          from_bl_irq_1 d1 = from_bl_irq_1 bldev \<and> from_bl_irq_2 d1 = from_bl_irq_2 bldev \<and>
          state d1 = (if irqno \<noteq> from_bl_irq_1 bldev \<and> irqno = from_bl_irq_2 bldev
                      then STATE_BL_INITIALIZED else STATE_BL_REQUEST_STOP)"
  proof (cases "ring_ok bldev")
    case True
    from serve_irq_request_stop [OF True Cons.prems(2), of irqno] show ?thesis by blast
  next
    case False
    with Cons.prems(1) have n: "irqno \<noteq> from_bl_irq_1 bldev" "from_bl_irq_1 bldev \<notin> set irqs"
      by auto
    from serve_irq_other [OF n(1) Cons.prems(2)] n show ?thesis by auto
  qed
  then obtain d1 where d1: "beaglelogic_serve_irq irqno bldev = Some d1"
    "ring_ok d1 \<or> from_bl_irq_1 d1 \<notin> set irqs"
    and q: "from_bl_irq_1 d1 = from_bl_irq_1 bldev" "from_bl_irq_2 d1 = from_bl_irq_2 bldev"
    and st: "state d1 = (if irqno \<noteq> from_bl_irq_1 bldev \<and> irqno = from_bl_irq_2 bldev
                        then STATE_BL_INITIALIZED else STATE_BL_REQUEST_STOP)" by blast
  have ne: "state bldev \<noteq> STATE_BL_INITIALIZED"
    using Cons.prems(2) by (simp add: STATE_BL_REQUEST_STOP_def STATE_BL_INITIALIZED_def)
  show ?case
  proof (cases "irqno \<noteq> from_bl_irq_1 bldev \<and> irqno = from_bl_irq_2 bldev")
    case False
    with st have "state d1 = STATE_BL_REQUEST_STOP" by simp
    from Cons.IH [OF d1(2) this] show ?thesis using d1(1) ne q False by auto
  next
    case True
    with st have "state d1 = STATE_BL_INITIALIZED" by simp
    then show ?thesis using d1(1) ne True by (cases irqs) auto
  qed
qed

text \<open>
  The interrupt handler, start, stop, the sample-rate setter and ring allocation all keep the
  rule that a Running device holds its session lock; start establishes it.
\<close>

lemma session_locked_serve_irq:
  assumes "session_locked bldev" and "beaglelogic_serve_irq irqno bldev = Some d"
  shows "session_locked d"
  using assms
  by (auto simp: session_locked_def beaglelogic_serve_irq_def irq_advance_def Let_def
      mutex_unlock_def bl_states split: option.splits if_splits)

lemma session_locked_start:
  assumes "beaglelogic_start pru bldev = Some (rc, d)"
  shows "session_locked d"
  using assms
  by (auto simp: session_locked_def beaglelogic_start_def mutex_lock_def
      beaglelogic_write_configuration_def Let_def beaglelogic_send_cmd_def mutex_unlock_def
      split: option.splits if_splits)

lemma session_locked_sleep:
  assumes "session_locked bldev" and "sleep_until cond irqs bldev = Some (r, d)"
  shows "session_locked d"
  using assms
proof (induction irqs arbitrary: bldev)
  case Nil
  then show ?case by simp
next
  case (Cons irqno irqs)
  then show ?case
    by (auto split: if_splits option.splits dest: session_locked_serve_irq)
qed

lemma sleep_until_state:
  assumes "sleep_until (\<lambda>d. state d = STATE_BL_INITIALIZED) irqs bldev = Some (r, d)"
    and "state bldev \<noteq> STATE_BL_RUNNING"
  shows "state d \<noteq> STATE_BL_RUNNING"
  using assms
proof (induction irqs arbitrary: bldev)
  case Nil
  then show ?case by simp
next
  case (Cons irqno irqs)
  show ?case
  proof (cases "state bldev = STATE_BL_INITIALIZED")
    case True
    then show ?thesis using Cons.prems by (simp add: bl_states)
  next
    case False
    then obtain d1 where d1: "beaglelogic_serve_irq irqno bldev = Some d1"
      and rest: "sleep_until (\<lambda>d. state d = STATE_BL_INITIALIZED) irqs d1 = Some (r, d)"
      using Cons.prems(1) by (auto split: option.splits)
    have "state d1 \<noteq> STATE_BL_RUNNING"
      using d1 Cons.prems(2)
      by (auto simp: beaglelogic_serve_irq_def irq_advance_def Let_def mutex_unlock_def bl_states
          split: option.splits if_splits)
    from Cons.IH [OF rest this] show ?thesis .
  qed
qed

lemma session_locked_stop:
  assumes "session_locked bldev" and "beaglelogic_stop irqs wake rca rcb bldev = Some d"
  shows "session_locked d"
proof (cases "mutex bldev \<and> state bldev = STATE_BL_RUNNING")
  case False
  then show ?thesis
    using assms
    by (auto simp: session_locked_def beaglelogic_stop_def mutex_is_locked_def mutex_unlock_def
        split: if_splits)
next
  case True
  let ?d1 = "(beaglelogic_request_stop bldev)\<lparr>state := STATE_BL_REQUEST_STOP\<rparr>"
  from True assms(2) obtain r d2 where
    sl: "sleep_until (\<lambda>d. state d = STATE_BL_INITIALIZED) irqs ?d1 = Some (r, d2)"
    by (auto simp: beaglelogic_stop_def mutex_is_locked_def wait_event_interruptible_timeout_def
        Let_def split: option.splits)
  have "state ?d1 \<noteq> STATE_BL_RUNNING" by (simp add: bl_states)
  from sleep_until_state [OF sl this] have nr: "state d2 \<noteq> STATE_BL_RUNNING" .
  show ?thesis
    using True assms(2) sl nr
    by (auto simp: beaglelogic_stop_def mutex_is_locked_def wait_event_interruptible_timeout_def
        Let_def session_locked_def mutex_unlock_def bl_states split: if_splits wakeup.splits)
qed


lemma session_locked_set_samplerate:
  assumes "session_locked bldev"
  shows "session_locked (snd (beaglelogic_set_samplerate r bldev))"
  using assms
  by (auto simp: session_locked_def beaglelogic_set_samplerate_def mutex_trylock_def
      mutex_unlock_def)

lemma session_locked_memalloc:
  assumes "session_locked bldev" and "beaglelogic_memalloc kz dma_alloc bufsize bldev = Some (rc, d)"
  shows "session_locked d"
proof (cases "mutex bldev")
  case True
  then show ?thesis
    using assms by (auto simp: beaglelogic_memalloc_def mutex_trylock_def)
next
  case False
  then have "state bldev \<noteq> STATE_BL_RUNNING" using assms(1) by (auto simp: session_locked_def)
  moreover have "state d = state bldev"
    using assms(2) False
    by (auto simp: beaglelogic_memalloc_def mutex_trylock_def mutex_unlock_def Let_def
        split: option.splits if_splits prod.splits bool.splits)
  ultimately show ?thesis by (simp add: session_locked_def)
qed

text \<open>
  C3: stop on a Running device whose session lock is held (as it is in every Running state
  that the driver reaches, see above) returns, whatever interrupts arrive during the wait,
  however the wait ends and whatever the reboot of the PRUs returns, provided that the ring is
  well-formed or, as for a session started without a ring, that no buffer-ready signal arrives.
  On return the state is Initialized or Error, never RequestStop, and the lock is released;
  apart from the state and the lock the device is as the wait left it. The completion is
  observed (\<open>completed\<close>) exactly when the capture-complete signal arrives during the
  wait. The final state is Initialized when the completion was observed, whatever the reboot of
  the PRUs would return; Initialized when the wait was interrupted by a signal; Initialized when
  the wait timed out and both PRUs rebooted; and Error when the wait timed out without
  completion and the reboot of PRU0 or of PRU1 failed. The state is Error in no other case.
\<close>

theorem stop_leaves_request_stop:
  assumes "state bldev = STATE_BL_RUNNING" and "mutex bldev"
    and "ring_ok bldev \<or> from_bl_irq_1 bldev \<notin> set irqs"
  shows "\<exists>completed d2 d.
           sleep_until (\<lambda>d. state d = STATE_BL_INITIALIZED) irqs
             ((beaglelogic_request_stop bldev)\<lparr>state := STATE_BL_REQUEST_STOP\<rparr>) = Some (completed, d2) \<and>
           (completed \<longleftrightarrow>
              from_bl_irq_2 bldev \<in> set irqs \<and> from_bl_irq_2 bldev \<noteq> from_bl_irq_1 bldev) \<and>
           beaglelogic_stop irqs wake rca rcb bldev = Some d \<and>
           d = mutex_unlock (d2\<lparr>state := state d\<rparr>) \<and>
           (state d = STATE_BL_INITIALIZED \<or> state d = STATE_BL_ERROR) \<and>
           state d \<noteq> STATE_BL_REQUEST_STOP \<and> \<not> mutex d \<and>
           (completed \<longrightarrow> state d = STATE_BL_INITIALIZED) \<and>
           (\<not> completed \<and> wake = Signalled \<longrightarrow> state d = STATE_BL_INITIALIZED) \<and>
           (\<not> completed \<and> wake = Expired \<and> rca = 0 \<and> rcb = 0 \<longrightarrow>
              state d = STATE_BL_INITIALIZED) \<and>
           (\<not> completed \<and> wake = Expired \<and> (rca \<noteq> 0 \<or> rcb \<noteq> 0) \<longrightarrow>
              state d = STATE_BL_ERROR) \<and>
           (state d = STATE_BL_ERROR \<longrightarrow> wake = Expired \<and> (rca \<noteq> 0 \<or> rcb \<noteq> 0))"
proof -
  let ?d1 = "(beaglelogic_request_stop bldev)\<lparr>state := STATE_BL_REQUEST_STOP\<rparr>"
  have "ring_ok ?d1 \<or> from_bl_irq_1 ?d1 \<notin> set irqs"
    using assms(3) by (simp add: ring_ok_def beaglelogic_request_stop_def split: option.splits)
  moreover have "state ?d1 = STATE_BL_REQUEST_STOP" by simp
  ultimately obtain r d2 where
    sl: "sleep_until (\<lambda>d. state d = STATE_BL_INITIALIZED) irqs ?d1 = Some (r, d2)"
    and c: "r \<longleftrightarrow> from_bl_irq_2 ?d1 \<in> set irqs \<and> from_bl_irq_2 ?d1 \<noteq> from_bl_irq_1 ?d1"
    and r: "r \<longrightarrow> state d2 = STATE_BL_INITIALIZED"
    and nr: "\<not> r \<longrightarrow> state d2 = STATE_BL_REQUEST_STOP"
    using sleep_until_completion by blast
  have c': "r \<longleftrightarrow> from_bl_irq_2 bldev \<in> set irqs \<and> from_bl_irq_2 bldev \<noteq> from_bl_irq_1 bldev"
    using c by (simp add: beaglelogic_request_stop_def)
  have same: "r \<Longrightarrow> d2\<lparr>state := STATE_BL_INITIALIZED\<rparr> = d2"
  proof -
    assume r
    with r have "state d2 = STATE_BL_INITIALIZED" by simp
    then have "d2\<lparr>state := STATE_BL_INITIALIZED\<rparr> = d2\<lparr>state := state d2\<rparr>" by simp
    then show ?thesis by simp
  qed
  have st: "beaglelogic_stop irqs wake rca rcb bldev =
      Some (mutex_unlock (d2\<lparr>state := (if r \<or> wake = Signalled \<or> (rca = 0 \<and> rcb = 0)
                                        then STATE_BL_INITIALIZED else STATE_BL_ERROR)\<rparr>))"
    using assms(1,2) sl same
    by (cases wake)
       (auto simp: beaglelogic_stop_def mutex_is_locked_def wait_event_interruptible_timeout_def
          Let_def ERESTARTSYS_def)
  show ?thesis
    apply (rule exI [of _ r], rule exI [of _ d2], rule exI)
    apply (intro conjI)
               apply (rule sl)
              apply (rule c')
             apply (rule st)
    by (cases wake; simp add: mutex_unlock_def bl_states)+
qed

lemma session_dev_ring_ok: "ring_ok (session_dev t (ring2 s0 s1) 0 None)"
  by (simp add: ring_ok_def concrete_devs nxt_ok_def)

text \<open>
  C3 on the two-buffer device in a continuous session (interrupt 1 is the buffer-ready signal,
  2 the capture-complete signal). When a buffer-ready and then the completion signal arrive
  during the wait, stop ends in Initialized although both reboots would fail. When only a
  buffer-ready signal or nothing arrives within the timeout and PRU0, or PRU1 after PRU0,
  fails to reboot, stop ends in Error; when both reboot, in Initialized. When a signal
  interrupts the wait, stop ends in Initialized without a reboot. The same on the device that
  start leaves Running without a ring: with the completion signal stop ends in Initialized,
  with a timeout and a failed reboot in Error. The lock is released every time.
\<close>

theorem stop_leaves_request_stop_witness:
  "state (session_dev BL_TRIGGERFLAGS_CONTINUOUS
            (ring2 STATE_BL_BUF_MAPPED STATE_BL_BUF_MAPPED) 0 None) = STATE_BL_RUNNING \<and>
   mutex (session_dev BL_TRIGGERFLAGS_CONTINUOUS
            (ring2 STATE_BL_BUF_MAPPED STATE_BL_BUF_MAPPED) 0 None) \<and>
   ring_ok (session_dev BL_TRIGGERFLAGS_CONTINUOUS
            (ring2 STATE_BL_BUF_MAPPED STATE_BL_BUF_MAPPED) 0 None) \<and>
   (\<exists>d. beaglelogic_stop [1, 2] Expired (- 22) (- 22)
           (session_dev BL_TRIGGERFLAGS_CONTINUOUS
              (ring2 STATE_BL_BUF_MAPPED STATE_BL_BUF_MAPPED) 0 None) = Some d \<and>
        state d = STATE_BL_INITIALIZED \<and> \<not> mutex d) \<and>
   (\<exists>d. beaglelogic_stop [1] Expired (- 22) 0
           (session_dev BL_TRIGGERFLAGS_CONTINUOUS
              (ring2 STATE_BL_BUF_MAPPED STATE_BL_BUF_MAPPED) 0 None) = Some d \<and>
        state d = STATE_BL_ERROR \<and> \<not> mutex d) \<and>
   (\<exists>d. beaglelogic_stop [] Expired 0 (- 22)
           (session_dev BL_TRIGGERFLAGS_CONTINUOUS
              (ring2 STATE_BL_BUF_MAPPED STATE_BL_BUF_MAPPED) 0 None) = Some d \<and>
        state d = STATE_BL_ERROR \<and> \<not> mutex d) \<and>
   (\<exists>d. beaglelogic_stop [] Expired 0 0
           (session_dev BL_TRIGGERFLAGS_CONTINUOUS
              (ring2 STATE_BL_BUF_MAPPED STATE_BL_BUF_MAPPED) 0 None) = Some d \<and>
        state d = STATE_BL_INITIALIZED \<and> \<not> mutex d) \<and>
   (\<exists>d. beaglelogic_stop [1] Signalled (- 22) (- 22)
           (session_dev BL_TRIGGERFLAGS_CONTINUOUS
              (ring2 STATE_BL_BUF_MAPPED STATE_BL_BUF_MAPPED) 0 None) = Some d \<and>
        state d = STATE_BL_INITIALIZED \<and> \<not> mutex d) \<and>
   (\<exists>n. beaglelogic_start pru_ack probed_dev = Some (0, n) \<and>
        state n = STATE_BL_RUNNING \<and> mutex n \<and> \<not> ring_ok n \<and>
        from_bl_irq_1 n \<notin> set [2] \<and>
        (\<exists>d. beaglelogic_stop [2] Expired (- 22) (- 22) n = Some d \<and>
             state d = STATE_BL_INITIALIZED \<and> \<not> mutex d) \<and>
        (\<exists>d. beaglelogic_stop [] Expired (- 22) 0 n = Some d \<and>
             state d = STATE_BL_ERROR \<and> \<not> mutex d))"
proof -
  let ?D = "session_dev BL_TRIGGERFLAGS_CONTINUOUS
              (ring2 STATE_BL_BUF_MAPPED STATE_BL_BUF_MAPPED) 0 None"
  have h1: "state ?D = STATE_BL_RUNNING" by (simp add: concrete_devs)
  have h2: "mutex ?D" by (simp add: concrete_devs)
  have h3: "ring_ok ?D" by (rule session_dev_ring_ok)
  have h3': "\<And>irqs. ring_ok ?D \<or> from_bl_irq_1 ?D \<notin> set irqs" using h3 by simp
  have q: "from_bl_irq_1 ?D = 1" "from_bl_irq_2 ?D = 2" by (simp_all add: concrete_devs)
  from stop_leaves_request_stop [OF h1 h2 h3', of "[1, 2]" Expired "- 22" "- 22"] q
  have a: "\<exists>d. beaglelogic_stop [1, 2] Expired (- 22) (- 22) ?D = Some d \<and>
        state d = STATE_BL_INITIALIZED \<and> \<not> mutex d"
    by auto
  from stop_leaves_request_stop [OF h1 h2 h3', of "[1]" Expired "- 22" 0] q
  have b: "\<exists>d. beaglelogic_stop [1] Expired (- 22) 0 ?D = Some d \<and>
        state d = STATE_BL_ERROR \<and> \<not> mutex d"
    by auto
  from stop_leaves_request_stop [OF h1 h2 h3', of "[]" Expired 0 "- 22"] q
  have c: "\<exists>d. beaglelogic_stop [] Expired 0 (- 22) ?D = Some d \<and>
        state d = STATE_BL_ERROR \<and> \<not> mutex d"
    by auto
  from stop_leaves_request_stop [OF h1 h2 h3', of "[]" Expired 0 0] q
  have d: "\<exists>d. beaglelogic_stop [] Expired 0 0 ?D = Some d \<and>
        state d = STATE_BL_INITIALIZED \<and> \<not> mutex d"
    by auto
  from stop_leaves_request_stop [OF h1 h2 h3', of "[1]" Signalled "- 22" "- 22"] q
  have e: "\<exists>d. beaglelogic_stop [1] Signalled (- 22) (- 22) ?D = Some d \<and>
        state d = STATE_BL_INITIALIZED \<and> \<not> mutex d"
    by auto
  let ?N = "snd (the (beaglelogic_start pru_ack probed_dev))"
  have n0: "beaglelogic_start pru_ack probed_dev = Some (0, ?N)"
    by (simp add: beaglelogic_start_def mutex_lock_def beaglelogic_write_configuration_def
        Let_def probed_dev_def)
  have n1: "state ?N = STATE_BL_RUNNING" and n2: "mutex ?N" and n3: "\<not> ring_ok ?N"
    and nq: "from_bl_irq_1 ?N = 1" "from_bl_irq_2 ?N = 2"
    by (simp_all add: beaglelogic_start_def mutex_lock_def beaglelogic_write_configuration_def
        Let_def probed_dev_def beaglelogic_send_cmd_def pru_ack_def ring_ok_def)
  have n4: "from_bl_irq_1 ?N \<notin> set [2]" using nq by simp
  have n4': "from_bl_irq_1 ?N \<notin> set []" by simp
  from stop_leaves_request_stop [OF n1 n2 disjI2, OF n4, of Expired "- 22" "- 22"] nq
  have f: "\<exists>d. beaglelogic_stop [2] Expired (- 22) (- 22) ?N = Some d \<and>
        state d = STATE_BL_INITIALIZED \<and> \<not> mutex d"
    by auto
  from stop_leaves_request_stop [OF n1 n2 disjI2, OF n4', of Expired "- 22" 0] nq
  have g: "\<exists>d. beaglelogic_stop [] Expired (- 22) 0 ?N = Some d \<and>
        state d = STATE_BL_ERROR \<and> \<not> mutex d"
    by auto
  from n0 n1 n2 n3 n4 f g
  have n: "\<exists>n. beaglelogic_start pru_ack probed_dev = Some (0, n) \<and>
        state n = STATE_BL_RUNNING \<and> mutex n \<and> \<not> ring_ok n \<and>
        from_bl_irq_1 n \<notin> set [2] \<and>
        (\<exists>d. beaglelogic_stop [2] Expired (- 22) (- 22) n = Some d \<and>
             state d = STATE_BL_INITIALIZED \<and> \<not> mutex d) \<and>
        (\<exists>d. beaglelogic_stop [] Expired (- 22) 0 n = Some d \<and>
             state d = STATE_BL_ERROR \<and> \<not> mutex d)"
    by blast
  from h1 h2 h3 a b c d e n show ?thesis by blast
qed

subsection \<open>Ring allocation\<close>

text \<open>The allocation loop succeeds exactly when no allocation fails, and then fills every entry.\<close>

lemma alloc_loop_success:
  assumes "\<forall>k. i \<le> k \<and> k < cnt \<longrightarrow> fst (dma_alloc k) \<noteq> 0" and "length bs = cnt" and "i \<le> cnt"
  shows "\<exists>bs' live'. alloc_loop dma_alloc unit cnt i bs live = (True, bs', live') \<and>
           length bs' = cnt \<and>
           (\<forall>k < i. bs' ! k = bs ! k) \<and>
           (\<forall>k. i \<le> k \<and> k < cnt \<longrightarrow> bs' ! k = fresh_buffer dma_alloc unit cnt k) \<and>
           live' = rev (map (\<lambda>k. (fst (dma_alloc k), unit)) [i..<cnt]) @ live"
  using assms
proof (induction dma_alloc unit cnt i bs live rule: alloc_loop.induct)
  case (1 dma_alloc unit cnt i bs live)
  show ?case
  proof (cases "i < cnt")
    case False
    with "1.prems" show ?thesis by (auto simp: alloc_loop.simps)
  next
    case True
    let ?b = "(bs ! i)\<lparr>buf := fst (dma_alloc i), phys_addr := snd (dma_alloc i),
                       bsize := unit, index := of_nat i, bstate := STATE_BL_BUF_MAPPED,
                       nxt := Some ((i + 1) mod cnt)\<rparr>"
    have ok: "fst (dma_alloc i) \<noteq> 0" using True "1.prems"(1) by simp
    have fb: "?b = fresh_buffer dma_alloc unit cnt i" by (simp add: fresh_buffer_def)
    from "1.IH" [OF True ok] "1.prems" True
    obtain bs' live' where
      r: "alloc_loop dma_alloc unit cnt (Suc i) (bs[i := ?b]) ((fst (dma_alloc i), unit) # live)
            = (True, bs', live')"
      and len: "length bs' = cnt"
      and lo: "\<forall>k < Suc i. bs' ! k = (bs[i := ?b]) ! k"
      and hi: "\<forall>k. Suc i \<le> k \<and> k < cnt \<longrightarrow> bs' ! k = fresh_buffer dma_alloc unit cnt k"
      and lv: "live' = rev (map (\<lambda>k. (fst (dma_alloc k), unit)) [Suc i..<cnt])
                 @ (fst (dma_alloc i), unit) # live"
      by auto
    have eq: "alloc_loop dma_alloc unit cnt i bs live = (True, bs', live')"
      using True ok r by (subst alloc_loop.simps) simp
    have lo': "\<forall>k < i. bs' ! k = bs ! k" using lo by simp
    have at: "bs' ! i = fresh_buffer dma_alloc unit cnt i"
      using lo True "1.prems"(2) fb by simp
    have hi': "\<forall>k. i \<le> k \<and> k < cnt \<longrightarrow> bs' ! k = fresh_buffer dma_alloc unit cnt k"
      using hi at by (metis Suc_leI le_neq_implies_less)
    have lv': "live' = rev (map (\<lambda>k. (fst (dma_alloc k), unit)) [i..<cnt]) @ live"
      using lv True by (simp add: upt_conv_Cons)
    from eq len lo' hi' lv' show ?thesis by blast
  qed
qed

lemma alloc_loop_fresh:
  assumes "\<forall>k < cnt. fst (dma_alloc k) \<noteq> 0" and "length bs = cnt"
  shows "alloc_loop dma_alloc unit cnt 0 bs live =
           (True, map (fresh_buffer dma_alloc unit cnt) [0..<cnt],
            rev (map (\<lambda>k. (fst (dma_alloc k), unit)) [0..<cnt]) @ live)"
proof -
  from alloc_loop_success [of 0 cnt dma_alloc bs unit live] assms
  obtain bs' where r: "alloc_loop dma_alloc unit cnt 0 bs live =
        (True, bs', rev (map (\<lambda>k. (fst (dma_alloc k), unit)) [0..<cnt]) @ live)"
    and len: "length bs' = cnt"
    and hi: "\<forall>k < cnt. bs' ! k = fresh_buffer dma_alloc unit cnt k"
    by auto
  have "bs' = map (fresh_buffer dma_alloc unit cnt) [0..<cnt]"
    using len hi by (intro nth_equalityI) simp_all
  with r show ?thesis by simp
qed

lemma alloc_loop_True_iff:
  assumes "i \<le> cnt"
  shows "fst (alloc_loop dma_alloc unit cnt i bs live) \<longleftrightarrow>
           (\<forall>k. i \<le> k \<and> k < cnt \<longrightarrow> fst (dma_alloc k) \<noteq> 0)"
  using assms
proof (induction dma_alloc unit cnt i bs live rule: alloc_loop.induct)
  case (1 dma_alloc unit cnt i bs live)
  show ?case
  proof (cases "i < cnt")
    case False
    then show ?thesis by (simp add: alloc_loop.simps)
  next
    case True
    show ?thesis
    proof (cases "fst (dma_alloc i) = 0")
      case z: True
      then show ?thesis using True by (subst alloc_loop.simps) auto
    next
      case nz: False
      have "(\<forall>k. i \<le> k \<and> k < cnt \<longrightarrow> fst (dma_alloc k) \<noteq> 0) \<longleftrightarrow>
            (\<forall>k. Suc i \<le> k \<and> k < cnt \<longrightarrow> fst (dma_alloc k) \<noteq> 0)"
        using nz by (metis Suc_leI le_neq_implies_less Suc_leD)
      then show ?thesis
        using "1.IH" [OF True nz] True nz by (subst alloc_loop.simps) simp
    qed
  qed
qed

text \<open>In a ring whose \<^verbatim>\<open>next\<close> pointers go to the following entry modulo the length, \<open>k\<close> steps from \<open>i\<close> lead to \<open>(i + k) mod length\<close>.\<close>

lemma follow_ring:
  assumes "\<forall>i < length bs. nxt (bs ! i) = Some ((i + 1) mod length bs)" and "i < length bs"
  shows "follow bs k i = Some ((i + k) mod length bs)"
  using assms(2)
proof (induction k arbitrary: i)
  case 0
  then show ?case by simp
next
  case (Suc k)
  have "0 < length bs" using Suc.prems by (cases bs) auto
  then have lt: "(i + 1) mod length bs < length bs" by (rule mod_less_divisor)
  have "follow bs (Suc k) i = follow bs k ((i + 1) mod length bs)"
    using Suc.prems assms(1) by simp
  also have "\<dots> = Some (((i + 1) mod length bs + k) mod length bs)"
    by (rule Suc.IH [OF lt])
  also have "((i + 1) mod length bs + k) mod length bs = (i + Suc k) mod length bs"
    by (simp add: mod_add_left_eq)
  finally show ?case .
qed


lemma sint_small: "(w::u32) < 0x80000000 \<Longrightarrow> sint w = int (unat w)"
proof -
  assume a: "w < 0x80000000"
  then have "uint w < 2 ^ 31" by (simp add: word_less_def)
  then have "signed_take_bit 31 (uint w) = uint w"
    by (intro signed_take_bit_int_eq_self) (auto intro: order_trans [of _ 0])
  then show ?thesis by (simp add: sint_uint)
qed

lemma unat_max2: "2 \<le> unat (max (q::u32) 2)"
proof -
  have "(2::u32) \<le> max q 2" by simp
  then have "unat (2::u32) \<le> unat (max q 2)" by (simp only: word_le_nat_alt)
  then show ?thesis by simp
qed

lemma loop_bound:
  assumes "cnt \<le> m" and "(m::u32) < 0x80000000" and "2 \<le> unat cnt"
  shows "(if 0 < sint cnt then nat (sint cnt) else 0) = unat cnt"
proof -
  have "cnt < 0x80000000" using assms(1,2) by simp
  then have s: "sint cnt = int (unat cnt)" by (rule sint_small)
  have p: "0 < int (unat cnt)" using assms(3) by linarith
  show ?thesis unfolding s using p by (simp only: if_True nat_int)
qed

lemma memalloc_unfold:
  assumes free: "\<not> mutex bldev" and q: "DIV_ROUND_UP bufsize (bufunitsize bldev) = Some q"
    and le: "max q 2 \<le> maxbufcount bldev" and mx: "maxbufcount bldev < 0x80000000"
  shows "beaglelogic_memalloc kz dma_alloc bufsize bldev =
     (if \<not> kz
      then Some (- ENOMEM, mutex_unlock (bldev\<lparr>mutex := True, bufcount := max q 2, buffers := None\<rparr>))
      else (case alloc_loop dma_alloc (bufunitsize bldev) (unat (max q 2)) 0
                   (replicate (unat (max q 2)) zeroed_buffer) (dma_live bldev) of
              (True, bs, live) \<Rightarrow>
                Some (0, mutex_unlock (bldev\<lparr>mutex := True, bufcount := max q 2,
                                             buffers := Some bs, dma_live := live\<rparr>))
            | (False, bs, live) \<Rightarrow>
                Some (- ENOMEM,
                      mutex_unlock (bldev\<lparr>mutex := True, bufcount := max q 2,
                                          dma_live := free_loop (unat (max q 2)) 0 bs live,
                                          bufcount := 0, buffers := None\<rparr>))))"
proof -
  have n: "(if 0 < sint (max q 2) then nat (sint (max q 2)) else 0) = unat (max q 2)"
    by (rule loop_bound [OF le mx unat_max2])
  have p1: "0 < sint (max q 2)" using n unat_max2 [of q] by (auto split: if_splits)
  have p2: "nat (sint (max q 2)) = unat (max q 2)" using n p1 by simp
  show ?thesis
    using free q le
    by (simp add: beaglelogic_memalloc_def Let_def mutex_trylock_def not_less [symmetric] p1 p2)
qed

text \<open>What a successful allocation leaves behind.\<close>

lemma memalloc_success:
  assumes ok: "beaglelogic_memalloc kz dma_alloc bufsize bldev = Some (0, d)"
    and mx: "maxbufcount bldev < 0x80000000"
  shows "\<exists>q. DIV_ROUND_UP bufsize (bufunitsize bldev) = Some q \<and>
             max q 2 \<le> maxbufcount bldev \<and> \<not> mutex bldev \<and>
             d = bldev\<lparr>bufcount := max q 2,
                       buffers := Some (map (fresh_buffer dma_alloc (bufunitsize bldev) (unat (max q 2)))
                                          [0..<unat (max q 2)]),
                       dma_live := rev (map (\<lambda>k. (fst (dma_alloc k), bufunitsize bldev))
                                          [0..<unat (max q 2)]) @ dma_live bldev\<rparr>"
proof -
  from ok have free: "\<not> mutex bldev"
    by (auto simp: beaglelogic_memalloc_def mutex_trylock_def EBUSY_def split: if_splits)
  from ok free obtain q where q: "DIV_ROUND_UP bufsize (bufunitsize bldev) = Some q"
    by (auto simp: beaglelogic_memalloc_def mutex_trylock_def split: option.splits)
  let ?cnt = "max q 2"
  let ?n = "unat ?cnt"
  let ?d1 = "bldev\<lparr>mutex := True, bufcount := ?cnt\<rparr>"
  let ?r = "alloc_loop dma_alloc (bufunitsize bldev) ?n 0 (replicate ?n zeroed_buffer)
              (dma_live bldev)"
  from ok free q have le: "?cnt \<le> maxbufcount bldev"
    by (auto simp: beaglelogic_memalloc_def mutex_trylock_def Let_def ENOMEM_def not_less
        split: if_splits)
  note step = memalloc_unfold [OF free q le mx, of kz dma_alloc]
  from ok have kz: kz unfolding step by (auto simp: ENOMEM_def split: if_splits)
  from ok kz have t: "fst ?r"
    unfolding step by (auto simp: ENOMEM_def split: prod.splits bool.splits)
  then have all: "\<forall>k < ?n. fst (dma_alloc k) \<noteq> 0"
    by (simp add: alloc_loop_True_iff)
  have r: "?r = (True, map (fresh_buffer dma_alloc (bufunitsize bldev) ?n) [0..<?n],
                 rev (map (\<lambda>k. (fst (dma_alloc k), bufunitsize bldev)) [0..<?n]) @ dma_live bldev)"
    by (rule alloc_loop_fresh [OF all]) simp
  from ok kz have "d = mutex_unlock (?d1\<lparr>
        buffers := Some (map (fresh_buffer dma_alloc (bufunitsize bldev) ?n) [0..<?n]),
        dma_live := rev (map (\<lambda>k. (fst (dma_alloc k), bufunitsize bldev)) [0..<?n])
                      @ dma_live bldev\<rparr>)"
    unfolding step r by simp
  then have "d = bldev\<lparr>bufcount := ?cnt,
        buffers := Some (map (fresh_buffer dma_alloc (bufunitsize bldev) ?n) [0..<?n]),
        dma_live := rev (map (\<lambda>k. (fst (dma_alloc k), bufunitsize bldev)) [0..<?n])
                      @ dma_live bldev\<rparr>"
    using free by (cases bldev) (simp add: mutex_unlock_def)
  with q le free show ?thesis by blast
qed

text \<open>
  Without wrap-around the macro is the rounded-up quotient: \<open>(n + d - 1) div d\<close> is the
  least \<open>q\<close> with \<open>n \<le> q * d\<close>.
\<close>

lemma div_round_up_exact:
  fixes n d :: u32
  assumes "d \<noteq> 0" and "unat n + unat d \<le> 2 ^ 32"
  shows "\<exists>q. DIV_ROUND_UP n d = Some q \<and> unat q = (unat n + unat d - 1) div unat d"
proof -
  have d1: "1 \<le> unat d" using assms(1) by (simp add: unat_gt_0 Suc_leI)
  have m: "unat (d - 1) = unat d - 1" using assms(1) by (rule unat_minus_one)
  have "unat n + unat (d - 1) < 2 ^ LENGTH(32)" using m d1 assms(2) by simp
  then have "unat (n + (d - 1)) = unat n + unat (d - 1)" by (simp only: unat_add_lem)
  then have "unat (n + d - 1) = unat n + unat d - 1" using m d1 by (simp add: add_diff_eq)
  then have "unat ((n + d - 1) div d) = (unat n + unat d - 1) div unat d"
    by (simp add: unat_div)
  then show ?thesis using assms(1) by (simp add: DIV_ROUND_UP_def)
qed

lemma round_up_is_ceiling:
  fixes n d :: nat
  assumes "0 < d"
  shows "n \<le> ((n + d - 1) div d) * d \<and> ((n + d - 1) div d) * d < n + d"
proof -
  let ?s = "n + d - 1"
  have a: "(?s div d) * d \<le> ?s" by simp
  have "?s < (?s div d) * d + d"
    using assms by (metis div_mult_mod_eq add_less_cancel_left mod_less_divisor)
  with a assms show ?thesis by linarith
qed

lemma memalloc_without_wrap:
  assumes free: "\<not> mutex bldev" and nz: "bufunitsize bldev \<noteq> 0"
    and nowrap: "unat bufsize + unat (bufunitsize bldev) \<le> 2 ^ 32"
    and mx: "maxbufcount bldev < 0x80000000"
  shows "\<exists>cnt. unat cnt = max ((unat bufsize + unat (bufunitsize bldev) - 1)
                                  div unat (bufunitsize bldev)) 2 \<and>
           (maxbufcount bldev < cnt \<longrightarrow>
              beaglelogic_memalloc kz dma_alloc bufsize bldev = Some (- ENOMEM, bldev)) \<and>
           (cnt \<le> maxbufcount bldev \<and> kz \<and> (\<forall>k < unat cnt. fst (dma_alloc k) \<noteq> 0) \<longrightarrow>
              beaglelogic_memalloc kz dma_alloc bufsize bldev =
                Some (0, bldev\<lparr>bufcount := cnt,
                       buffers := Some (map (fresh_buffer dma_alloc (bufunitsize bldev) (unat cnt))
                                          [0..<unat cnt]),
                       dma_live := rev (map (\<lambda>k. (fst (dma_alloc k), bufunitsize bldev))
                                          [0..<unat cnt]) @ dma_live bldev\<rparr>))"
proof -
  from div_round_up_exact [OF nz nowrap] obtain q where
    q: "DIV_ROUND_UP bufsize (bufunitsize bldev) = Some q"
    and uq: "unat q = (unat bufsize + unat (bufunitsize bldev) - 1) div unat (bufunitsize bldev)"
    by blast
  let ?cnt = "max q 2"
  let ?n = "unat ?cnt"
  have un: "?n = max (unat q) 2" by (simp add: max_def word_le_nat_alt)
  have big: "maxbufcount bldev < ?cnt \<longrightarrow>
      beaglelogic_memalloc kz dma_alloc bufsize bldev = Some (- ENOMEM, bldev)"
    using free q
    by (cases bldev) (simp add: beaglelogic_memalloc_def mutex_trylock_def Let_def mutex_unlock_def)
  have fits: "?cnt \<le> maxbufcount bldev \<and> kz \<and> (\<forall>k < ?n. fst (dma_alloc k) \<noteq> 0) \<longrightarrow>
      beaglelogic_memalloc kz dma_alloc bufsize bldev =
        Some (0, bldev\<lparr>bufcount := ?cnt,
               buffers := Some (map (fresh_buffer dma_alloc (bufunitsize bldev) ?n) [0..<?n]),
               dma_live := rev (map (\<lambda>k. (fst (dma_alloc k), bufunitsize bldev)) [0..<?n])
                             @ dma_live bldev\<rparr>)"
  proof
    assume h: "?cnt \<le> maxbufcount bldev \<and> kz \<and> (\<forall>k < ?n. fst (dma_alloc k) \<noteq> 0)"
    then have le: "?cnt \<le> maxbufcount bldev" and kz: kz
      and all: "\<forall>k < ?n. fst (dma_alloc k) \<noteq> 0" by auto
    have r: "alloc_loop dma_alloc (bufunitsize bldev) ?n 0 (replicate ?n zeroed_buffer)
               (dma_live bldev)
             = (True, map (fresh_buffer dma_alloc (bufunitsize bldev) ?n) [0..<?n],
                rev (map (\<lambda>k. (fst (dma_alloc k), bufunitsize bldev)) [0..<?n]) @ dma_live bldev)"
      by (rule alloc_loop_fresh [OF all]) simp
    show "beaglelogic_memalloc kz dma_alloc bufsize bldev =
        Some (0, bldev\<lparr>bufcount := ?cnt,
               buffers := Some (map (fresh_buffer dma_alloc (bufunitsize bldev) ?n) [0..<?n]),
               dma_live := rev (map (\<lambda>k. (fst (dma_alloc k), bufunitsize bldev)) [0..<?n])
                             @ dma_live bldev\<rparr>)"
      unfolding memalloc_unfold [OF free q le mx] r
      using free kz by (cases bldev) (simp add: mutex_unlock_def)
  qed
  from un uq big fits show ?thesis by (intro exI [of _ ?cnt]) simp
qed

text \<open>
  C4 at the failing input: a request of \<open>2 ^ 32 - 1\<close> bytes with the default unit of 4 MiB
  on a device that supports 128 buffers. The rounded-up quotient is 1024, more than the
  device supports, but the sum inside \<^verbatim>\<open>DIV_ROUND_UP\<close> wraps, the driver computes a
  count of 2, and the call succeeds with a ring of two buffers.
\<close>

theorem memalloc_wraps_at_4GiB:
  "beaglelogic_memalloc True dma_alloc_ok 4294967295 probed_dev
     = Some (0, ring_dev 0 (ring2 STATE_BL_BUF_MAPPED STATE_BL_BUF_MAPPED)) \<and>
   bufcount (ring_dev 0 (ring2 STATE_BL_BUF_MAPPED STATE_BL_BUF_MAPPED)) = 2 \<and>
   bufunitsize probed_dev = 4194304 \<and> maxbufcount probed_dev = 128 \<and>
   max ((4294967295 + 4194304 - 1) div 4194304) 2 = (1024 :: nat)"
proof -
  have q: "DIV_ROUND_UP 4294967295 4194304 = Some 0" by (simp add: DIV_ROUND_UP_def)
  have "beaglelogic_memalloc True dma_alloc_ok 4294967295 probed_dev
     = Some (0, ring_dev 0 (ring2 STATE_BL_BUF_MAPPED STATE_BL_BUF_MAPPED))"
    by (simp add: beaglelogic_memalloc_def mutex_trylock_def probed_dev_def q
      mutex_unlock_def alloc_loop_two ring_dev_def Let_def)
  then show ?thesis by (simp add: ring_dev_def probed_dev_def)
qed

text \<open>
  C9: after a successful allocation (on a device whose advertised maximum fits a signed
  \<^verbatim>\<open>int\<close>; the probe only accepts 1 to 255) the buffer array has \<^verbatim>\<open>bufcount\<close>
  entries, at least 2; following \<^verbatim>\<open>next\<close> exactly that many times from any entry leads
  back to it; and the \<^verbatim>\<open>next\<close> pointer of the last entry is the first entry.
\<close>

theorem ring_is_circular:
  assumes "beaglelogic_memalloc kz dma_alloc bufsize bldev = Some (0, d)"
    and "maxbufcount bldev < 0x80000000"
  shows "\<exists>bs. buffers d = Some bs \<and> length bs = unat (bufcount d) \<and> 2 \<le> length bs \<and>
              (\<forall>i < length bs. follow bs (length bs) i = Some i) \<and>
              nxt (last bs) = Some 0"
proof -
  from memalloc_success [OF assms] obtain q where
    d: "d = bldev\<lparr>bufcount := max q 2,
                   buffers := Some (map (fresh_buffer dma_alloc (bufunitsize bldev) (unat (max q 2)))
                                      [0..<unat (max q 2)]),
                   dma_live := rev (map (\<lambda>k. (fst (dma_alloc k), bufunitsize bldev))
                                      [0..<unat (max q 2)]) @ dma_live bldev\<rparr>"
    by blast
  let ?n = "unat (max q 2)"
  let ?bs = "map (fresh_buffer dma_alloc (bufunitsize bldev) ?n) [0..<?n]"
  have n2: "2 \<le> ?n" by (rule unat_max2)
  have len: "length ?bs = ?n" by simp
  have nx: "\<forall>i < length ?bs. nxt (?bs ! i) = Some ((i + 1) mod length ?bs)"
    by (simp add: fresh_buffer_def)
  have fl: "\<forall>i < length ?bs. follow ?bs (length ?bs) i = Some i"
  proof (intro allI impI)
    fix i assume i: "i < length ?bs"
    from follow_ring [OF nx i, of "length ?bs"] i show "follow ?bs (length ?bs) i = Some i"
      by simp
  qed
  have ne: "?bs \<noteq> []" using n2 by auto
  have "last ?bs = ?bs ! (?n - 1)" using ne by (simp add: last_conv_nth)
  also have "\<dots> = fresh_buffer dma_alloc (bufunitsize bldev) ?n (?n - 1)" using n2 by simp
  finally have "nxt (last ?bs) = Some ((?n - 1 + 1) mod ?n)" by (simp add: fresh_buffer_def)
  then have ls: "nxt (last ?bs) = Some 0" using n2 by simp
  show ?thesis
    using d len n2 fl ls by simp
qed


lemma memalloc_two_buffers_probed:
  "beaglelogic_memalloc True dma_alloc_ok 8388608 probed_dev
     = Some (0, ring_dev 0 (ring2 STATE_BL_BUF_MAPPED STATE_BL_BUF_MAPPED))"
  using memalloc_two_buffers [of 0] by (simp add: probed_dev_def)

text \<open>C9 on the probed device: a request of 8 MiB gives a circular ring of two buffers.\<close>

theorem ring_is_circular_witness:
  "beaglelogic_memalloc True dma_alloc_ok 8388608 probed_dev
     = Some (0, ring_dev 0 (ring2 STATE_BL_BUF_MAPPED STATE_BL_BUF_MAPPED)) \<and>
   maxbufcount probed_dev < 0x80000000 \<and>
   (\<exists>bs. buffers (ring_dev 0 (ring2 STATE_BL_BUF_MAPPED STATE_BL_BUF_MAPPED)) = Some bs \<and>
      length bs = unat (bufcount (ring_dev 0 (ring2 STATE_BL_BUF_MAPPED STATE_BL_BUF_MAPPED))) \<and>
      2 \<le> length bs \<and> (\<forall>i < length bs. follow bs (length bs) i = Some i) \<and>
      nxt (last bs) = Some 0)"
proof -
  have mx: "maxbufcount probed_dev < 0x80000000" by (simp add: probed_dev_def)
  from ring_is_circular [OF memalloc_two_buffers_probed mx] memalloc_two_buffers_probed mx
  show ?thesis by simp
qed

text \<open>
  C10 at the failing input: an 8 MiB request on the probed device when \<^verbatim>\<open>devm_kzalloc\<close>
  cannot allocate the array. The call fails with \<^verbatim>\<open>-ENOMEM\<close> through the label
  \<^verbatim>\<open>failnomem\<close>, after \<^verbatim>\<open>bufcount\<close> was set: the buffer count stays 2 while the
  array pointer is \<^verbatim>\<open>NULL\<close>.
\<close>

theorem memalloc_kzalloc_failure_keeps_count:
  "beaglelogic_memalloc False dma_alloc_ok 8388608 probed_dev
     = Some (- ENOMEM, probed_dev\<lparr>bufcount := 2\<rparr>) \<and>
   bufcount (probed_dev\<lparr>bufcount := 2\<rparr>) \<noteq> 0 \<and>
   buffers (probed_dev\<lparr>bufcount := 2\<rparr>) = None"
proof -
  have q: "DIV_ROUND_UP 8388608 4194304 = Some 2" by (simp add: DIV_ROUND_UP_def)
  show ?thesis
    by (simp add: beaglelogic_memalloc_def mutex_trylock_def probed_dev_def q
      mutex_unlock_def Let_def)
qed

text \<open>
  The other failure inside the allocation goes through \<^verbatim>\<open>failrelease\<close>, which frees the
  regions and resets the count: when the second DMA allocation fails the device is as before.
\<close>

lemma memalloc_dma_failure_resets:
  "beaglelogic_memalloc True dma_alloc_second_fails 8388608 probed_dev
     = Some (- ENOMEM, probed_dev)"
proof -
  have q: "DIV_ROUND_UP 8388608 4194304 = Some 2" by (simp add: DIV_ROUND_UP_def)
  have r: "replicate 2 zeroed_buffer = [zeroed_buffer, zeroed_buffer]"
    by (simp add: numeral_2_eq_2)
  have a: "alloc_loop dma_alloc_second_fails 4194304 2 0 [zeroed_buffer, zeroed_buffer] []
     = (False, [zeroed_buffer\<lparr>buf := 3221225472, phys_addr := 2415919104, bsize := 4194304,
                  index := 0, bstate := STATE_BL_BUF_MAPPED, nxt := Some (Suc 0)\<rparr>, zeroed_buffer],
        [(3221225472, 4194304)])"
    by (simp add: alloc_loop.simps [of _ _ _ 0] alloc_loop.simps [of _ _ _ "Suc 0"]
        dma_alloc_second_fails_def)
  have f: "free_loop 2 0 [zeroed_buffer\<lparr>buf := 3221225472, phys_addr := 2415919104,
                  bsize := 4194304, index := 0, bstate := STATE_BL_BUF_MAPPED, nxt := Some (Suc 0)\<rparr>,
                  zeroed_buffer] [(3221225472, 4194304)] = []"
    by (subst free_loop.simps, subst free_loop.simps, subst free_loop.simps)
       (simp add: zeroed_buffer_def)
  show ?thesis
    by (simp add: beaglelogic_memalloc_def mutex_trylock_def probed_dev_def q r a f
      mutex_unlock_def Let_def)
qed


subsection \<open>Overrun detection\<close>


























text \<open>
  Outside the range of the theorem above: once the offset left is a positive multiple of
  \<open>2 ^ 32\<close> the loop never ends, so a seek by \<open>2 ^ 32\<close> bytes does not return.
\<close>

lemma seek_cur_stuck:
  assumes "seek_cur i reader bldev = Some y"
  shows "\<not> seek_stuck i reader bldev"
proof (rule seek_cur.raw_induct [where P = "\<lambda>i reader bldev y. \<not> seek_stuck i reader bldev",
      OF _ assms])
  fix f :: "int \<Rightarrow> logic_buffer_reader \<Rightarrow> beaglelogicdev
              \<Rightarrow> (logic_buffer_reader \<times> beaglelogicdev) option"
  fix i reader bldev y
  assume IH: "\<And>i reader bldev y. f i reader bldev = Some y \<Longrightarrow> \<not> seek_stuck i reader bldev"
  assume eq: "(if 0 < i then
        (case buffers bldev of
           None \<Rightarrow> None
         | Some bs \<Rightarrow>
             (case rbuf reader of
                None \<Rightarrow> None
              | Some k \<Rightarrow>
                  if k < length bs then
                    (let bs1 = detect_drop k bs;
                         d1 = bldev\<lparr>buffers := Some bs1,
                                    lasterror := detect_drop_error k bs (lasterror bldev)\<rparr>;
                         j = min (word_of_int i :: u32) (remaining reader);
                         r1 = reader\<lparr>pos := pos reader + j, remaining := remaining reader - j\<rparr>
                     in if remaining r1 = 0 then
                          (case nxt (bs1 ! k) of
                             None \<Rightarrow> None
                           | Some n \<Rightarrow>
                               if n < length bs1
                               then f (i - uint j)
                                      (r1\<lparr>rbuf := Some n, pos := 0, remaining := bsize (bs1 ! n)\<rparr>) d1
                               else None)
                        else f (i - uint j) r1 d1)
                  else None))
      else Some (reader, bldev)) = Some y"
  show "\<not> seek_stuck i reader bldev"
  proof
    assume s: "seek_stuck i reader bldev"
    then obtain bs k where b: "buffers bldev = Some bs" "rbuf reader = Some k" "k < length bs"
      and i: "0 < i" "(word_of_int i :: u32) = 0" and r: "remaining reader \<noteq> 0"
      by (auto simp: seek_stuck_def split: option.splits)
    let ?d1 = "bldev\<lparr>buffers := Some (detect_drop k bs),
                      lasterror := detect_drop_error k bs (lasterror bldev)\<rparr>"
    have "f i reader ?d1 = Some y"
      using eq b i r by (simp add: Let_def)
    then have "\<not> seek_stuck i reader ?d1" by (rule IH)
    moreover have "seek_stuck i reader ?d1"
      using b i r by (simp add: seek_stuck_def detect_drop_def)
    ultimately show False by simp
  qed
qed

lemma seek_by_4GiB_never_returns:
  "beaglelogic_f_llseek [] Expired 0 0 4294967296 SEEK_CUR (reader_at 0 0)
     (session_dev 1 (ring2 STATE_BL_BUF_MAPPED STATE_BL_BUF_MAPPED) 0 None) = None"
proof -
  have "seek_stuck 4294967296 (reader_at 0 0)
          (session_dev 1 (ring2 STATE_BL_BUF_MAPPED STATE_BL_BUF_MAPPED) 0 None)"
    by (simp add: seek_stuck_def reader_at_def concrete_devs)
  then have "seek_cur 4294967296 (reader_at 0 0)
          (session_dev 1 (ring2 STATE_BL_BUF_MAPPED STATE_BL_BUF_MAPPED) 0 None) = None"
    using seek_cur_stuck by (cases "seek_cur 4294967296 (reader_at 0 0)
          (session_dev 1 (ring2 STATE_BL_BUF_MAPPED STATE_BL_BUF_MAPPED) 0 None)") auto
  then show ?thesis by (simp add: beaglelogic_f_llseek_def)
qed

subsection \<open>End of file\<close>

text \<open>A read of a nonzero length from a buffer with bytes remaining never returns 0 once it copies.\<close>

lemma perform_copy_nonzero:
  assumes "perform_copy copy_ok sz reader bldev = Some (rv, r, d)" and "sz \<noteq> 0"
    and "remaining reader \<noteq> 0"
  shows "rv \<noteq> 0"
proof -
  have "min (remaining reader) sz \<noteq> 0" using assms(2,3) by (simp add: min_def)
  then have "sint (min (remaining reader) sz) \<noteq> 0" by (simp add: signed_eq_0_iff)
  then show ?thesis
    using assms(1)
    by (auto simp: perform_copy_def Let_def EFAULT_def split: option.splits if_splits)
qed

lemma read_wait_nonzero:
  assumes "read_wait nonblock irqs copy_ok sz reader bldev = Some (rv, r, d)" and "sz \<noteq> 0"
    and "remaining reader \<noteq> 0"
  shows "rv \<noteq> 0"
  using assms
  by (auto simp: read_wait_def EAGAIN_def ERESTARTSYS_def wait_event_interruptible_def
      split: option.splits if_splits dest: perform_copy_nonzero)

lemma read_eof_iff:
  assumes "rbuf reader = Some i" and "buffers bldev = Some bs" and "sz \<noteq> 0"
    and "remaining reader \<noteq> 0"
  shows "(\<exists>r d. beaglelogic_f_read pru nonblock irqs copy_ok sz reader bldev = Some (0, r, d))
           \<longleftrightarrow> i = 0 \<and> pos reader = 0 \<and> state bldev = STATE_BL_INITIALIZED"
proof
  assume "\<exists>r d. beaglelogic_f_read pru nonblock irqs copy_ok sz reader bldev = Some (0, r, d)"
  then obtain r d where
    z: "beaglelogic_f_read pru nonblock irqs copy_ok sz reader bldev = Some (0, r, d)" by blast
  show "i = 0 \<and> pos reader = 0 \<and> state bldev = STATE_BL_INITIALIZED"
  proof (rule ccontr)
    assume n: "\<not> (i = 0 \<and> pos reader = 0 \<and> state bldev = STATE_BL_INITIALIZED)"
    have e: "state bldev \<noteq> STATE_BL_ERROR" using z by (auto simp: beaglelogic_f_read_def EIO_def)
    show False
    proof (cases "0 < pos reader")
      case True
      then have "perform_copy copy_ok sz reader bldev = Some (0, r, d)"
        using z e by (simp add: beaglelogic_f_read_def)
      from perform_copy_nonzero [OF this assms(3,4)] show False by simp
    next
      case False
      then have "pos reader = 0" by (simp add: word_greater_zero_iff)
      then have "read_wait nonblock irqs copy_ok sz reader bldev = Some (0, r, d)"
        using z e n False assms(1) by (auto simp: beaglelogic_f_read_def split: if_splits)
      from read_wait_nonzero [OF this assms(3,4)] show False by simp
    qed
  qed
next
  assume "i = 0 \<and> pos reader = 0 \<and> state bldev = STATE_BL_INITIALIZED"
  then have "beaglelogic_f_read pru nonblock irqs copy_ok sz reader bldev = Some (0, reader, bldev)"
    using assms(1,2) by (simp add: beaglelogic_f_read_def bl_states)
  then show "\<exists>r d. beaglelogic_f_read pru nonblock irqs copy_ok sz reader bldev = Some (0, r, d)"
    by blast
qed


lemma index_nonzero:
  assumes "0 < k" and "k < 65536"
  shows "(of_nat k :: u16) \<noteq> 0"
proof -
  have "unat (of_nat k :: u16) = k" using assms(2) by (simp add: unat_of_nat take_bit_nat_eq_self)
  then show ?thesis using assms(1) by (metis unat_0 less_numeral_extra(3))
qed

lemma irq_advance_eq:
  assumes "nxt (bs ! i) = Some k" and "k < length bs"
  shows "irq_advance bldev bs i = Some (bldev\<lparr>bufbeingread := Some k, buffers := Some bs\<rparr>)"
proof -
  have "snd (beaglelogic_map_buffer (bs ! k)) = bs ! k"
    by (simp add: beaglelogic_map_buffer_def)
  then show ?thesis using assms by (simp add: irq_advance_def)
qed

text \<open>The buffer-ready signal for buffer \<open>m\<close> of a oneshot pass.\<close>

lemma oneshot_irq:
  assumes inv: "oneshot_inv n unit q1 q2 m bldev" and m: "m < n" and n: "n < 65536"
  shows "\<exists>d. beaglelogic_serve_irq q1 bldev = Some d \<and> oneshot_inv n unit q1 q2 (Suc m) d \<and>
             lasterror d = lasterror bldev"
proof -
  from inv obtain bs where bs: "buffers bldev = Some bs" and len: "length bs = n"
    and ent: "\<forall>i < n. nxt (bs ! i) = Some ((i + 1) mod n) \<and> index (bs ! i) = of_nat i \<and>
                    bsize (bs ! i) = unit \<and>
                    bstate (bs ! i) = (if i < m then STATE_BL_BUF_UNMAPPED
                                       else STATE_BL_BUF_MAPPED)"
    by (auto simp: oneshot_inv_def split: option.splits)
  from inv have cur: "bufbeingread bldev = Some m" and q: "from_bl_irq_1 bldev = q1"
    and one: "triggerflags bldev = BL_TRIGGERFLAGS_ONESHOT"
    using m by (auto simp: oneshot_inv_def min_def)
  let ?k = "(m + 1) mod n"
  let ?bs1 = "bs[m := (bs ! m)\<lparr>bstate := STATE_BL_BUF_UNMAPPED\<rparr>]"
  have kn: "?k < n" using m by simp
  have nx: "nxt (bs ! m) = Some ?k" using ent m by simp
  have ix: "index (bs ! ?k) = of_nat ?k" using ent kn by simp
  have ix0: "index (bs ! ?k) = 0 \<longleftrightarrow> Suc m = n"
  proof (cases "Suc m = n")
    case True
    then show ?thesis using ix by simp
  next
    case False
    then have "?k = Suc m" using m by simp
    then show ?thesis using ix False index_nonzero [of "Suc m"] m n by simp
  qed
  let ?d = "bldev\<lparr>lastbufready := Some m, buffers := Some ?bs1,
                   bufbeingread := (if Suc m = n then Some m else Some ?k)\<rparr>"
  have n1: "nxt (?bs1 ! m) = Some ?k" using nx m len by simp
  have ix1: "index (?bs1 ! ?k) = index (bs ! ?k)"
    using m len kn by (cases "?k = m") simp_all
  have kl: "?k < length ?bs1" using kn len by simp
  note adv = irq_advance_eq [OF n1 kl]
  have r: "beaglelogic_serve_irq q1 bldev = Some ?d"
    using bs cur q one m len kn n1 ix1 ix0
    by (simp add: beaglelogic_serve_irq_def Let_def beaglelogic_unmap_buffer_def adv)
  have cur': "bufbeingread ?d = Some (min (Suc m) (n - 1))"
    using m by (auto simp: min_def)
  have ent': "\<forall>i < n. nxt (?bs1 ! i) = Some ((i + 1) mod n) \<and> index (?bs1 ! i) = of_nat i \<and>
                    bsize (?bs1 ! i) = unit \<and>
                    bstate (?bs1 ! i) = (if i < Suc m then STATE_BL_BUF_UNMAPPED
                                         else STATE_BL_BUF_MAPPED)"
    using ent len m by (auto simp: nth_list_update)
  have "oneshot_inv n unit q1 q2 (Suc m) ?d"
    using inv cur' ent' len by (simp add: oneshot_inv_def)
  with r show ?thesis by simp
qed


text \<open>A blocking read of buffer \<open>m\<close> during which the buffer-ready signal arrives.\<close>

lemma oneshot_read_wait:
  assumes inv: "oneshot_inv n unit q1 q2 m bldev" and m: "m < n" and n: "n < 65536"
    and rb: "rbuf reader = Some m" and ps: "pos reader = 0" and rm: "remaining reader = unit"
    and sz: "unit \<le> sz" and u: "unit \<noteq> 0"
  shows "\<exists>d. read_wait False [q1] True sz reader bldev
               = Some (sint unit, reader\<lparr>rbuf := Some ((m + 1) mod n)\<rparr>, d) \<and>
             oneshot_inv n unit q1 q2 (Suc m) d"
proof -
  from inv obtain bs where bs: "buffers bldev = Some bs" and len: "length bs = n"
    and st: "bstate (bs ! m) = STATE_BL_BUF_MAPPED"
    using m by (auto simp: oneshot_inv_def split: option.splits)
  from oneshot_irq [OF inv m n] obtain d where
    irq: "beaglelogic_serve_irq q1 bldev = Some d"
    and inv': "oneshot_inv n unit q1 q2 (Suc m) d" and le: "lasterror d = lasterror bldev"
    by blast
  from inv' obtain bs1 where bs1: "buffers d = Some bs1" and len1: "length bs1 = n"
    and ent1: "\<forall>i < n. nxt (bs1 ! i) = Some ((i + 1) mod n) \<and> index (bs1 ! i) = of_nat i \<and>
                    bsize (bs1 ! i) = unit \<and>
                    bstate (bs1 ! i) = (if i < Suc m then STATE_BL_BUF_UNMAPPED
                                        else STATE_BL_BUF_MAPPED)"
    by (auto simp: oneshot_inv_def split: option.splits)
  have c0: "\<not> buf_unmapped m bldev" using bs st by (simp add: buf_unmapped_def)
  have c1: "buf_unmapped m d" using bs1 len1 ent1 m by (simp add: buf_unmapped_def)
  have sl: "sleep_until (buf_unmapped m) [q1] bldev = Some (True, d)"
    using c0 c1 irq by simp
  let ?k = "(m + 1) mod n"
  have kn: "?k < n" using m by simp
  have um: "bstate (bs1 ! m) = STATE_BL_BUF_UNMAPPED" using ent1 m by simp
  have dd: "detect_drop m bs1 = bs1" using um by (simp add: detect_drop_def)
  have de: "detect_drop_error m bs1 (lasterror d) = lasterror d"
    using um by (simp add: detect_drop_error_def)
  have nx: "nxt (bs1 ! m) = Some ?k" using ent1 m by simp
  have bz: "bsize (bs1 ! ?k) = unit" using ent1 kn by simp
  have mn: "min unit sz = unit" using sz by (simp add: min_def)
  have same: "d\<lparr>buffers := Some bs1, lasterror := lasterror d\<rparr> = d" using bs1 by simp
  have pc: "perform_copy True sz reader d
              = Some (sint unit, reader\<lparr>rbuf := Some ?k\<rparr>, d)"
    using bs1 len1 rb ps rm m mn dd de nx kn bz same
    by (simp add: perform_copy_def Let_def)
  have "read_wait False [q1] True sz reader bldev
          = Some (sint unit, reader\<lparr>rbuf := Some ?k\<rparr>, d)"
    using bs len rb m sl pc
    by (simp add: read_wait_def wait_event_interruptible_def)
  with inv' show ?thesis by blast
qed


lemma oneshot_read:
  assumes inv: "oneshot_inv n unit q1 q2 m bldev" and m: "m < n" and n: "n < 65536"
    and rb: "rbuf reader = Some m" and ps: "pos reader = 0" and rm: "remaining reader = unit"
    and sz: "unit \<le> sz" and u: "unit \<noteq> 0"
  shows "\<exists>d. beaglelogic_f_read pru False [q1] True sz reader bldev
               = Some (sint unit, reader\<lparr>rbuf := Some ((m + 1) mod n)\<rparr>, d) \<and>
             oneshot_inv n unit q1 q2 (Suc m) d"
proof -
  from inv have st: "state bldev = STATE_BL_RUNNING" by (simp add: oneshot_inv_def)
  have "beaglelogic_f_read pru False [q1] True sz reader bldev
          = read_wait False [q1] True sz reader bldev"
    using st rb ps by (simp add: beaglelogic_f_read_def bl_states)
  with oneshot_read_wait [OF inv m n rb ps rm sz u] show ?thesis by simp
qed

lemma oneshot_reads:
  assumes "oneshot_inv n unit q1 q2 m bldev" and "m + j \<le> n" and "n < 65536" and "0 < n"
    and "rbuf reader = Some (m mod n)" and "pos reader = 0" and "remaining reader = unit"
    and "unit \<le> sz" and "unit \<noteq> 0"
  shows "\<exists>d. read_times pru [q1] sz j reader bldev
               = Some (replicate j (sint unit), reader\<lparr>rbuf := Some ((m + j) mod n)\<rparr>, d) \<and>
             oneshot_inv n unit q1 q2 (m + j) d"
  using assms
proof (induction j arbitrary: m reader bldev)
  case 0
  then show ?case by simp
next
  case (Suc j)
  have m: "m < n" using Suc.prems(2) by simp
  then have rb: "rbuf reader = Some m" using Suc.prems(5) by simp
  from oneshot_read [OF Suc.prems(1) m Suc.prems(3) rb Suc.prems(6,7,8,9), of pru]
  obtain d where
    r1: "beaglelogic_f_read pru False [q1] True sz reader bldev
           = Some (sint unit, reader\<lparr>rbuf := Some ((m + 1) mod n)\<rparr>, d)"
    and i1: "oneshot_inv n unit q1 q2 (Suc m) d" by blast
  let ?r = "reader\<lparr>rbuf := Some ((m + 1) mod n)\<rparr>"
  have le: "Suc m + j \<le> n" using Suc.prems(2) by simp
  have rb1: "rbuf ?r = Some (Suc m mod n)" by simp
  have ps1: "pos ?r = 0" using Suc.prems(6) by simp
  have rm1: "remaining ?r = unit" using Suc.prems(7) by simp
  from Suc.IH [OF i1 le Suc.prems(3,4) rb1 ps1 rm1 Suc.prems(8,9)]
  obtain d' where
    r2: "read_times pru [q1] sz j ?r d
           = Some (replicate j (sint unit), ?r\<lparr>rbuf := Some ((Suc m + j) mod n)\<rparr>, d')"
    and i2: "oneshot_inv n unit q1 q2 (Suc m + j) d'" by blast
  from r1 r2 i2 show ?case by simp
qed

text \<open>The first read of the session starts the capture.\<close>

lemma oneshot_start:
  assumes bs: "buffers bldev = Some (map (fresh_buffer dma_alloc unit n) [0..<n])"
    and n0: "0 < n"
    and one: "triggerflags bldev = BL_TRIGGERFLAGS_ONESHOT"
    and free: "\<not> mutex bldev" and rate: "samplerate bldev \<noteq> 0"
  shows "\<exists>d. beaglelogic_start pru bldev = Some (0, d) \<and>
             oneshot_inv n unit (from_bl_irq_1 bldev) (from_bl_irq_2 bldev) 0 d"
proof -
  let ?d = "snd (the (beaglelogic_start pru bldev))"
  have s: "beaglelogic_start pru bldev = Some (0, ?d)"
    using free rate
    by (simp add: beaglelogic_start_def mutex_lock_def beaglelogic_write_configuration_def
        Let_def)
  have "oneshot_inv n unit (from_bl_irq_1 bldev) (from_bl_irq_2 bldev) 0 ?d"
    using free rate bs one n0
    by (simp add: beaglelogic_start_def mutex_lock_def beaglelogic_write_configuration_def
        Let_def beaglelogic_send_cmd_def oneshot_inv_def fresh_buffer_def split: option.splits)
  with s show ?thesis by blast
qed

lemma oneshot_capture:
  assumes bs: "buffers bldev = Some (map (fresh_buffer dma_alloc unit n) [0..<n])"
    and n0: "0 < n" and n: "n < 65536" and u: "unit \<noteq> 0" and sz: "unit \<le> sz"
    and one: "triggerflags bldev = BL_TRIGGERFLAGS_ONESHOT"
    and nr: "state bldev \<noteq> STATE_BL_RUNNING" and ne: "state bldev \<noteq> STATE_BL_ERROR"
    and free: "\<not> mutex bldev" and rate: "samplerate bldev \<noteq> 0"
    and irqs: "from_bl_irq_1 bldev \<noteq> from_bl_irq_2 bldev"
  shows "\<exists>r d d'. read_times pru [from_bl_irq_1 bldev] sz n fresh_reader bldev
                     = Some (replicate n (sint unit), r, d) \<and>
           state d = STATE_BL_RUNNING \<and>
           beaglelogic_serve_irq (from_bl_irq_2 bldev) d = Some d' \<and>
           state d' = STATE_BL_INITIALIZED \<and> \<not> mutex d' \<and>
           beaglelogic_f_read pru nonblock irqs' copy_ok sz r d' = Some (0, r, d')"
proof -
  let ?q1 = "from_bl_irq_1 bldev" and ?q2 = "from_bl_irq_2 bldev"
  obtain j where j: "n = Suc j" using n0 by (cases n) auto
  from oneshot_start [OF bs n0 one free rate, of pru] obtain d0 where
    s: "beaglelogic_start pru bldev = Some (0, d0)"
    and i0: "oneshot_inv n unit ?q1 ?q2 0 d0" by blast
  let ?r0 = "fresh_reader\<lparr>rbuf := Some 0, remaining := unit\<rparr>"
  have rb0: "rbuf ?r0 = Some 0" and ps0: "pos ?r0 = 0" and rm0: "remaining ?r0 = unit"
    by (simp_all add: fresh_reader_def)
  from oneshot_read_wait [OF i0 n0 n rb0 ps0 rm0 sz u] obtain d1 where
    w: "read_wait False [?q1] True sz ?r0 d0
          = Some (sint unit, ?r0\<lparr>rbuf := Some ((0 + 1) mod n)\<rparr>, d1)"
    and i1: "oneshot_inv n unit ?q1 ?q2 (Suc 0) d1" by blast
  let ?r1 = "?r0\<lparr>rbuf := Some ((0 + 1) mod n)\<rparr>"
  have first: "beaglelogic_f_read pru False [?q1] True sz fresh_reader bldev
                 = Some (sint unit, ?r1, d1)"
    using bs n0 nr ne s w
    by (simp add: beaglelogic_f_read_def fresh_reader_def fresh_buffer_def Let_def)
  have le: "Suc 0 + j \<le> n" using j by simp
  have rb1: "rbuf ?r1 = Some (Suc 0 mod n)" by simp
  have ps1: "pos ?r1 = 0" by (simp add: fresh_reader_def)
  have rm1: "remaining ?r1 = unit" by simp
  from oneshot_reads [OF i1 le n n0 rb1 ps1 rm1 sz u, of pru] obtain d where
    rest: "read_times pru [?q1] sz j ?r1 d1
             = Some (replicate j (sint unit), ?r1\<lparr>rbuf := Some ((Suc 0 + j) mod n)\<rparr>, d)"
    and inv: "oneshot_inv n unit ?q1 ?q2 (Suc 0 + j) d" by blast
  let ?r = "?r1\<lparr>rbuf := Some ((Suc 0 + j) mod n)\<rparr>"
  have all: "read_times pru [?q1] sz n fresh_reader bldev
               = Some (replicate n (sint unit), ?r, d)"
    using first rest j by simp
  from inv have st: "state d = STATE_BL_RUNNING" and mx: "mutex d"
    and tf: "triggerflags d = BL_TRIGGERFLAGS_ONESHOT"
    and q1: "from_bl_irq_1 d = ?q1" and q2: "from_bl_irq_2 d = ?q2"
    and bd: "buffers d \<noteq> None"
    by (auto simp: oneshot_inv_def split: option.splits)
  let ?d' = "mutex_unlock (d\<lparr>state := STATE_BL_INITIALIZED\<rparr>)"
  have irq: "beaglelogic_serve_irq ?q2 d = Some ?d'"
    using st tf q1 q2 irqs by (simp add: beaglelogic_serve_irq_def Let_def bl_states)
  have r0: "rbuf ?r = Some 0" using j by simp
  have p0: "pos ?r = 0" by (simp add: fresh_reader_def)
  have eof: "beaglelogic_f_read pru nonblock irqs' copy_ok sz ?r ?d' = Some (0, ?r, ?d')"
    using r0 p0 bd by (simp add: beaglelogic_f_read_def mutex_unlock_def bl_states)
  have "state ?d' = STATE_BL_INITIALIZED \<and> \<not> mutex ?d'" by (simp add: mutex_unlock_def)
  with all st irq eof show ?thesis by blast
qed


text \<open>
  Reads that return a whole buffer. The ring keeps its shape under interrupts, sleeps, start
  and reads. A read that returns \<open>unit\<close> bytes from the start of a buffer of \<open>unit\<close>
  bytes (\<open>0 < unit < 2 ^ 31\<close>, so that the return value is positive) has copied the whole
  buffer and moved the reader to the start of the next one. So after \<open>j\<close> such reads, in
  any interleaving with interrupts, a reader that began at buffer \<open>c\<close> stands at the start
  of buffer \<open>(c + j) mod n\<close>.
\<close>

lemma ring_shape_serve_irq:
  assumes "ring_shape n unit bldev" and "beaglelogic_serve_irq irqno bldev = Some d"
  shows "ring_shape n unit d"
  using assms
  by (auto simp: ring_shape_def beaglelogic_serve_irq_def irq_advance_def Let_def
      beaglelogic_unmap_buffer_def beaglelogic_map_buffer_def mutex_unlock_def nth_list_update
      split: option.splits if_splits)

lemma ring_shape_sleep:
  assumes "ring_shape n unit bldev" and "sleep_until cond irqs bldev = Some (b, d)"
  shows "ring_shape n unit d"
  using assms
proof (induction irqs arbitrary: bldev)
  case Nil
  then show ?case by simp
next
  case (Cons irqno irqs)
  then show ?case
    by (auto split: if_splits option.splits dest: ring_shape_serve_irq)
qed

lemma start_buffers:
  assumes "beaglelogic_start pru bldev = Some (rc, d)"
  shows "buffers d = buffers bldev"
  using assms
  by (auto simp: beaglelogic_start_def mutex_lock_def beaglelogic_write_configuration_def
      beaglelogic_send_cmd_def mutex_unlock_def Let_def split: option.splits if_splits)

lemma sint_unit_count:
  assumes "unit < (0x80000000 :: u32)" and "sint (min unit sz) = sint unit"
  shows "min unit sz = unit"
proof -
  have "min unit sz \<le> unit" by simp
  then have "min unit sz < 0x80000000" using assms(1) by (rule le_less_trans)
  then have "sint (min unit sz) = int (unat (min unit sz))" by (rule sint_small)
  moreover have "sint unit = int (unat unit)" using assms(1) by (rule sint_small)
  ultimately have "int (unat (min unit sz)) = int (unat unit)" using assms(2) by (simp only:)
  then have "unat (min unit sz) = unat unit" by (simp only: of_nat_eq_iff)
  then show ?thesis by (simp add: word_eq_iff_unsigned [where ?'a = nat])
qed

lemma sint_unit_pos:
  assumes "unit < (0x80000000 :: u32)" and "unit \<noteq> 0"
  shows "0 < sint unit"
proof -
  have e: "sint unit = int (unat unit)" using assms(1) by (rule sint_small)
  have "0 < unat unit" using assms(2) by (simp add: unat_gt_0)
  then have "0 < int (unat unit)" by (simp only: of_nat_0_less_iff)
  then show ?thesis by (simp only: e)
qed

lemma perform_copy_unit:
  assumes sh: "ring_shape n unit bldev" and rb: "rbuf reader = Some k" and kn: "k < n"
    and rm: "remaining reader = unit" and u: "unit \<noteq> 0" and ul: "unit < 0x80000000"
    and pc: "perform_copy copy_ok sz reader bldev = Some (sint unit, r, d)"
  shows "ring_shape n unit d \<and> rbuf r = Some ((k + 1) mod n) \<and> pos r = 0 \<and>
         remaining r = unit \<and> state d = state bldev"
proof -
  from sh obtain bs where bs: "buffers bldev = Some bs" and len: "length bs = n"
    and ent: "\<forall>i < n. nxt (bs ! i) = Some ((i + 1) mod n) \<and> bsize (bs ! i) = unit"
    by (auto simp: ring_shape_def split: option.splits)
  have sp: "0 < sint unit" by (rule sint_unit_pos [OF ul u])
  have nf: "sint unit \<noteq> - EFAULT" using sp by (simp add: EFAULT_def)
  let ?bs1 = "detect_drop k bs"
  have len1: "length ?bs1 = n" using len by (simp add: detect_drop_def)
  have ent1: "\<forall>i < n. nxt (?bs1 ! i) = Some ((i + 1) mod n) \<and> bsize (?bs1 ! i) = unit"
    using ent len kn by (auto simp: detect_drop_def nth_list_update)
  have kn1: "(k + 1) mod n < n" using kn by simp
  have nx: "nxt (?bs1 ! k) = Some ((k + 1) mod n)" using ent1 kn by simp
  have bz: "bsize (?bs1 ! ((k + 1) mod n)) = unit" using ent1 kn1 by simp
  have ok: "\<not> (min unit sz \<noteq> 0 \<and> \<not> copy_ok)"
    using pc bs rb kn len rm nf by (auto simp: perform_copy_def Let_def split: if_splits)
  have cnt: "sint (min unit sz) = sint unit"
    using pc bs rb kn len rm ok nx len1 kn1
    by (auto simp: perform_copy_def Let_def split: if_splits)
  have m: "min unit sz = unit" by (rule sint_unit_count [OF ul cnt])
  have res: "perform_copy copy_ok sz reader bldev
        = Some (sint unit,
                reader\<lparr>pos := 0, remaining := unit, rbuf := Some ((k + 1) mod n)\<rparr>,
                bldev\<lparr>buffers := Some ?bs1,
                       lasterror := detect_drop_error k bs (lasterror bldev)\<rparr>)"
    using bs rb kn len rm ok nx len1 kn1 bz m
    by (auto simp: perform_copy_def Let_def)
  with pc have r: "r = reader\<lparr>pos := 0, remaining := unit, rbuf := Some ((k + 1) mod n)\<rparr>"
    and d: "d = bldev\<lparr>buffers := Some ?bs1,
                       lasterror := detect_drop_error k bs (lasterror bldev)\<rparr>" by auto
  have "ring_shape n unit d" using d len1 ent1 by (simp add: ring_shape_def)
  then show ?thesis using r d by simp
qed

lemma read_wait_unit:
  assumes sh: "ring_shape n unit bldev" and rb: "rbuf reader = Some k" and kn: "k < n"
    and rm: "remaining reader = unit" and u: "unit \<noteq> 0" and ul: "unit < 0x80000000"
    and rw: "read_wait nonblock irqs copy_ok sz reader bldev = Some (sint unit, r, d)"
  shows "ring_shape n unit d \<and> rbuf r = Some ((k + 1) mod n) \<and> pos r = 0 \<and>
         remaining r = unit"
proof -
  from sh obtain bs where bs: "buffers bldev = Some bs" and len: "length bs = n"
    by (auto simp: ring_shape_def split: option.splits)
  have sp: "0 < sint unit" by (rule sint_unit_pos [OF ul u])
  have ne: "sint unit \<noteq> - EAGAIN" "sint unit \<noteq> - ERESTARTSYS"
    using sp by (simp_all add: EAGAIN_def ERESTARTSYS_def)
  show ?thesis
  proof (cases nonblock)
    case True
    then have "perform_copy copy_ok sz reader bldev = Some (sint unit, r, d)"
      using rw bs rb kn len ne by (auto simp: read_wait_def split: if_splits)
    from perform_copy_unit [OF sh rb kn rm u ul this] show ?thesis by simp
  next
    case False
    then obtain b d1 where sl: "sleep_until (buf_unmapped k) irqs bldev = Some (b, d1)"
      and pc: "perform_copy copy_ok sz reader d1 = Some (sint unit, r, d)"
      using rw bs rb kn len ne
      by (auto simp: read_wait_def wait_event_interruptible_def split: if_splits option.splits)
    have sh1: "ring_shape n unit d1" by (rule ring_shape_sleep [OF sh sl])
    from perform_copy_unit [OF sh1 rb kn rm u ul pc] show ?thesis by simp
  qed
qed

lemma read_unit:
  assumes sh: "ring_shape n unit bldev" and n0: "0 < n" and p: "pos reader = 0"
    and rd: "(rbuf reader = None \<and> c = 0) \<or> (rbuf reader = Some (c mod n) \<and> remaining reader = unit)"
    and u: "unit \<noteq> 0" and ul: "unit < 0x80000000"
    and fr: "beaglelogic_f_read pru nonblock irqs copy_ok sz reader bldev = Some (sint unit, r, d)"
  shows "ring_shape n unit d \<and> rbuf r = Some (Suc c mod n) \<and> pos r = 0 \<and> remaining r = unit"
proof -
  from sh obtain bs where bs: "buffers bldev = Some bs" and len: "length bs = n"
    and ent: "\<forall>i < n. nxt (bs ! i) = Some ((i + 1) mod n) \<and> bsize (bs ! i) = unit"
    by (auto simp: ring_shape_def split: option.splits)
  have sp: "0 < sint unit" by (rule sint_unit_pos [OF ul u])
  have ne: "sint unit \<noteq> - EIO" "sint unit \<noteq> - ENOEXEC" "sint unit \<noteq> 0"
    using sp by (simp_all add: EIO_def ENOEXEC_def)
  have ste: "state bldev \<noteq> STATE_BL_ERROR"
    using fr ne by (auto simp: beaglelogic_f_read_def)
  have sm: "Suc (c mod n) mod n = Suc c mod n" by (rule mod_Suc_eq)
  from rd show ?thesis
  proof
    assume a: "rbuf reader = None \<and> c = 0"
    let ?r1 = "reader\<lparr>rbuf := Some 0, remaining := bsize (bs ! 0)\<rparr>"
    have r1: "rbuf ?r1 = Some 0" "remaining ?r1 = unit" using ent n0 by simp_all
    have bne: "bs \<noteq> []" using len n0 by auto
    have "\<exists>d1. ring_shape n unit d1 \<and>
            read_wait nonblock irqs copy_ok sz ?r1 d1 = Some (sint unit, r, d)"
    proof (cases "state bldev \<noteq> STATE_BL_RUNNING")
      case False
      then have "read_wait nonblock irqs copy_ok sz ?r1 bldev = Some (sint unit, r, d)"
        using fr ste p a bs bne by (simp add: beaglelogic_f_read_def Let_def)
      with sh show ?thesis by blast
    next
      case True
      then obtain rc d1 where st: "beaglelogic_start pru bldev = Some (rc, d1)"
        and rw: "read_wait nonblock irqs copy_ok sz ?r1 d1 = Some (sint unit, r, d)"
        using fr ste p a bs bne ne
        by (auto simp: beaglelogic_f_read_def Let_def split: option.splits if_splits)
      have "buffers d1 = buffers bldev" by (rule start_buffers [OF st])
      then have "ring_shape n unit d1" using sh by (simp add: ring_shape_def)
      with rw show ?thesis by blast
    qed
    then obtain d1 where sh1: "ring_shape n unit d1"
      and rw: "read_wait nonblock irqs copy_ok sz ?r1 d1 = Some (sint unit, r, d)" by blast
    from read_wait_unit [OF sh1 r1(1) n0 r1(2) u ul rw] a show ?thesis by simp
  next
    assume a: "rbuf reader = Some (c mod n) \<and> remaining reader = unit"
    then have rb: "rbuf reader = Some (c mod n)" and rm: "remaining reader = unit" by auto
    have kn: "c mod n < n" using n0 by simp
    have rw: "read_wait nonblock irqs copy_ok sz reader bldev = Some (sint unit, r, d)"
      using fr ste p rb ne by (auto simp: beaglelogic_f_read_def split: if_splits)
    from read_wait_unit [OF sh rb kn rm u ul rw] sm show ?thesis by simp
  qed
qed

lemma run_session_units:
  assumes "ring_shape n unit bldev" and "0 < n" and "pos reader = 0"
    and "(rbuf reader = None \<and> c = 0) \<or> (rbuf reader = Some (c mod n) \<and> remaining reader = unit)"
    and "unit \<noteq> 0" and "unit < 0x80000000"
    and "run_session pru evs reader bldev = Some (replicate j (sint unit), r, d)"
  shows "ring_shape n unit d \<and> pos r = 0 \<and>
         ((rbuf r = None \<and> c = 0 \<and> j = 0) \<or>
          (rbuf r = Some ((c + j) mod n) \<and> remaining r = unit))"
  using assms
proof (induction pru evs reader bldev arbitrary: c j rule: run_session.induct)
  case (1 pru reader bldev)
  then show ?case by auto
next
  case (2 pru irqno evs reader bldev)
  from "2.prems"(7) obtain d1 where d1: "beaglelogic_serve_irq irqno bldev = Some d1"
    and rs: "run_session pru evs reader d1 = Some (replicate j (sint unit), r, d)"
    by (auto split: option.splits)
  have sh1: "ring_shape n unit d1" by (rule ring_shape_serve_irq [OF "2.prems"(1) d1])
  show ?case by (rule "2.IH" [OF d1 sh1 "2.prems"(2,3,4,5,6) rs])
next
  case (3 pru nonblock irqs copy_ok sz evs reader bldev)
  from "3.prems"(7) obtain rv r1 d1 rvs where
    fr: "beaglelogic_f_read pru nonblock irqs copy_ok sz reader bldev = Some (rv, r1, d1)"
    and rs: "run_session pru evs r1 d1 = Some (rvs, r, d)"
    and eq: "rv # rvs = replicate j (sint unit)"
    by (auto split: option.splits)
  from eq obtain j' where j: "j = Suc j'" and rv: "rv = sint unit"
    and rvs: "rvs = replicate j' (sint unit)"
    by (cases j) auto
  from read_unit [OF "3.prems"(1,2,3,4,5,6) fr [unfolded rv]]
  have sh1: "ring_shape n unit d1" and rb1: "rbuf r1 = Some (Suc c mod n)" and p1: "pos r1 = 0"
    and rm1: "remaining r1 = unit" by auto
  have rd1: "(rbuf r1 = None \<and> Suc c = 0) \<or> (rbuf r1 = Some (Suc c mod n) \<and> remaining r1 = unit)"
    using rb1 rm1 by simp
  have x: "(rv, r1, d1) = (rv, r1, d1)" by simp
  from "3.IH" [OF fr x refl sh1 "3.prems"(2) p1 rd1 "3.prems"(5,6) rs [unfolded rvs]]
  show ?case using j by simp
qed

text \<open>
  Once the device is Initialized and the reader initialized, interrupts and reads keep them so:
  no read starts a new capture, and no interrupt changes the state.
\<close>

lemma serve_irq_initialized:
  assumes "state bldev = STATE_BL_INITIALIZED" and "beaglelogic_serve_irq irqno bldev = Some d"
  shows "state d = STATE_BL_INITIALIZED"
  using assms
  by (auto simp: beaglelogic_serve_irq_def irq_advance_def Let_def bl_states
      split: option.splits if_splits)

lemma sleep_until_initialized:
  assumes "state bldev = STATE_BL_INITIALIZED" and "sleep_until cond irqs bldev = Some (b, d)"
  shows "state d = STATE_BL_INITIALIZED"
  using assms
proof (induction irqs arbitrary: bldev)
  case Nil
  then show ?case by simp
next
  case (Cons irqno irqs)
  then show ?case
    by (auto split: if_splits option.splits dest: serve_irq_initialized)
qed

lemma perform_copy_state:
  assumes "perform_copy copy_ok sz reader bldev = Some (rv, r, d)"
  shows "state d = state bldev \<and> rbuf r \<noteq> None"
  using assms
  by (auto simp: perform_copy_def Let_def split: option.splits if_splits)

lemma read_initialized:
  assumes st: "state bldev = STATE_BL_INITIALIZED" and rb: "rbuf reader \<noteq> None"
    and fr: "beaglelogic_f_read pru nonblock irqs copy_ok sz reader bldev = Some (rv, r, d)"
  shows "state d = STATE_BL_INITIALIZED \<and> rbuf r \<noteq> None"
proof -
  from rb obtain k where k: "rbuf reader = Some k" by auto
  have ne: "state bldev \<noteq> STATE_BL_ERROR" using st by (simp add: bl_states)
  consider (copy) "perform_copy copy_ok sz reader bldev = Some (rv, r, d)"
    | (same) "r = reader" "d = bldev"
    | (wait) "read_wait nonblock irqs copy_ok sz reader bldev = Some (rv, r, d)"
    using fr ne k by (auto simp: beaglelogic_f_read_def split: if_splits)
  then show ?thesis
  proof cases
    case copy
    from perform_copy_state [OF copy] st show ?thesis by simp
  next
    case same
    then show ?thesis using st rb by simp
  next
    case wait
    show ?thesis
    proof (cases nonblock)
      case True
      then consider "r = reader" "d = bldev"
        | "perform_copy copy_ok sz reader bldev = Some (rv, r, d)"
        using wait k by (auto simp: read_wait_def split: option.splits if_splits)
      then show ?thesis
      proof cases
        case 1
        then show ?thesis using st rb by simp
      next
        case 2
        from perform_copy_state [OF 2] st show ?thesis by simp
      qed
    next
      case False
      then obtain b d1 where sl: "sleep_until (buf_unmapped k) irqs bldev = Some (b, d1)"
        and c: "(r = reader \<and> d = d1) \<or> perform_copy copy_ok sz reader d1 = Some (rv, r, d)"
        using wait k
        by (auto simp: read_wait_def wait_event_interruptible_def
            split: option.splits if_splits)
      have s1: "state d1 = STATE_BL_INITIALIZED" by (rule sleep_until_initialized [OF st sl])
      from c show ?thesis
      proof
        assume "r = reader \<and> d = d1"
        then show ?thesis using s1 rb by simp
      next
        assume "perform_copy copy_ok sz reader d1 = Some (rv, r, d)"
        from perform_copy_state [OF this] s1 show ?thesis by simp
      qed
    qed
  qed
qed

lemma run_session_initialized:
  assumes "state bldev = STATE_BL_INITIALIZED" and "rbuf reader \<noteq> None"
    and "run_session pru evs reader bldev = Some (rvs, r, d)"
  shows "state d = STATE_BL_INITIALIZED \<and> rbuf r \<noteq> None"
  using assms
proof (induction pru evs reader bldev arbitrary: rvs rule: run_session.induct)
  case (1 pru reader bldev)
  then show ?case by auto
next
  case (2 pru irqno evs reader bldev)
  from "2.prems"(3) obtain d1 where d1: "beaglelogic_serve_irq irqno bldev = Some d1"
    and rs: "run_session pru evs reader d1 = Some (rvs, r, d)"
    by (auto split: option.splits)
  have s1: "state d1 = STATE_BL_INITIALIZED" by (rule serve_irq_initialized [OF "2.prems"(1) d1])
  show ?case by (rule "2.IH" [OF d1 s1 "2.prems"(2) rs])
next
  case (3 pru nonblock irqs copy_ok sz evs reader bldev)
  from "3.prems"(3) obtain rv r1 d1 rvs' where
    fr: "beaglelogic_f_read pru nonblock irqs copy_ok sz reader bldev = Some (rv, r1, d1)"
    and rs: "run_session pru evs r1 d1 = Some (rvs', r, d)"
    by (auto split: option.splits)
  from read_initialized [OF "3.prems"(1,2) fr]
  have s1: "state d1 = STATE_BL_INITIALIZED" and rb1: "rbuf r1 \<noteq> None" by auto
  have x: "(rv, r1, d1) = (rv, r1, d1)" by simp
  from "3.IH" [OF fr x refl s1 rb1 rs] show ?case .
qed

text \<open>
  The capture-complete signal in a Running oneshot session, and the read after a capture that
  was read in whole buffers.
\<close>

lemma completion_in_oneshot:
  assumes "state bldev = STATE_BL_RUNNING" and "triggerflags bldev = BL_TRIGGERFLAGS_ONESHOT"
    and "from_bl_irq_1 bldev \<noteq> from_bl_irq_2 bldev"
  shows "beaglelogic_serve_irq (from_bl_irq_2 bldev) bldev
           = Some (mutex_unlock (bldev\<lparr>state := STATE_BL_INITIALIZED\<rparr>))"
  using assms by (auto simp: beaglelogic_serve_irq_def Let_def bl_states)

lemma eof_after_capture:
  assumes sh: "ring_shape n unit bldev" and n0: "0 < n" and u: "unit \<noteq> 0"
    and ul: "unit < 0x80000000" and sz: "sz \<noteq> 0"
    and rs: "run_session pru evs fresh_reader bldev = Some (replicate n (sint unit), r, d)"
  shows "rbuf r = Some 0 \<and> pos r = 0 \<and>
         ((\<exists>r' d'. beaglelogic_f_read pru nonblock irqs copy_ok sz r d = Some (0, r', d'))
            \<longleftrightarrow> state d = STATE_BL_INITIALIZED) \<and>
         (state d = STATE_BL_RUNNING \<and> triggerflags d = BL_TRIGGERFLAGS_ONESHOT \<and>
          from_bl_irq_1 d \<noteq> from_bl_irq_2 d \<longrightarrow>
            (\<exists>d'. beaglelogic_serve_irq (from_bl_irq_2 d) d = Some d' \<and>
                   state d' = STATE_BL_INITIALIZED \<and> \<not> mutex d' \<and>
                   beaglelogic_f_read pru nonblock irqs copy_ok sz r d' = Some (0, r, d')))"
proof -
  have p0: "pos fresh_reader = 0" by (simp add: fresh_reader_def)
  have rd0: "(rbuf fresh_reader = None \<and> (0::nat) = 0) \<or>
             (rbuf fresh_reader = Some (0 mod n) \<and> remaining fresh_reader = unit)"
    by (simp add: fresh_reader_def)
  from run_session_units [OF sh n0 p0 rd0 u ul rs] n0
  have shd: "ring_shape n unit d" and p: "pos r = 0" and rb: "rbuf r = Some 0"
    and rm: "remaining r = unit" by auto
  from shd obtain bs where bs: "buffers d = Some bs"
    by (auto simp: ring_shape_def split: option.splits)
  have rmn: "remaining r \<noteq> 0" using rm u by simp
  have iff: "(\<exists>r' d'. beaglelogic_f_read pru nonblock irqs copy_ok sz r d = Some (0, r', d'))
            \<longleftrightarrow> state d = STATE_BL_INITIALIZED"
    using read_eof_iff [OF rb bs sz rmn, of pru nonblock irqs copy_ok] p by simp
  have comp: "state d = STATE_BL_RUNNING \<and> triggerflags d = BL_TRIGGERFLAGS_ONESHOT \<and>
          from_bl_irq_1 d \<noteq> from_bl_irq_2 d \<longrightarrow>
            (\<exists>d'. beaglelogic_serve_irq (from_bl_irq_2 d) d = Some d' \<and>
                   state d' = STATE_BL_INITIALIZED \<and> \<not> mutex d' \<and>
                   beaglelogic_f_read pru nonblock irqs copy_ok sz r d' = Some (0, r, d'))"
  proof
    assume h: "state d = STATE_BL_RUNNING \<and> triggerflags d = BL_TRIGGERFLAGS_ONESHOT \<and>
          from_bl_irq_1 d \<noteq> from_bl_irq_2 d"
    let ?d' = "mutex_unlock (d\<lparr>state := STATE_BL_INITIALIZED\<rparr>)"
    have irq: "beaglelogic_serve_irq (from_bl_irq_2 d) d = Some ?d'"
      using h by (intro completion_in_oneshot) auto
    have eof: "beaglelogic_f_read pru nonblock irqs copy_ok sz r ?d' = Some (0, r, ?d')"
      using rb p bs by (simp add: beaglelogic_f_read_def mutex_unlock_def bl_states)
    have "state ?d' = STATE_BL_INITIALIZED \<and> \<not> mutex ?d'" by (simp add: mutex_unlock_def)
    with irq eof show "\<exists>d'. beaglelogic_serve_irq (from_bl_irq_2 d) d = Some d' \<and>
                   state d' = STATE_BL_INITIALIZED \<and> \<not> mutex d' \<and>
                   beaglelogic_f_read pru nonblock irqs copy_ok sz r d' = Some (0, r, d')"
      by blast
  qed
  from rb p iff comp show ?thesis by blast
qed

text \<open>
  The oneshot capture on the two-buffer device, step by step: the first read starts the capture
  and is woken by the buffer-ready signal of buffer 0; the second buffer-ready signal leaves the
  write cursor on buffer 1, the last buffer; reads of Unmapped buffers do not wait; the
  capture-complete signal sets the state to Initialized and releases the lock, and is ignored
  when it comes again; the read at the start of buffer 0 is then at end of file.
\<close>

lemma oneshot_first_read:
  "beaglelogic_f_read pru_ack False [1] True 4194304 fresh_reader
     (ring_dev BL_TRIGGERFLAGS_ONESHOT (ring2 STATE_BL_BUF_MAPPED STATE_BL_BUF_MAPPED))
     = Some (4194304, reader_at 1 0,
             session_dev BL_TRIGGERFLAGS_ONESHOT
               (ring2 STATE_BL_BUF_UNMAPPED STATE_BL_BUF_MAPPED) 1 (Some 0))"
proof -
  let ?D = "session_dev BL_TRIGGERFLAGS_ONESHOT
              (ring2 STATE_BL_BUF_MAPPED STATE_BL_BUF_MAPPED) 0 None"
  let ?E = "session_dev BL_TRIGGERFLAGS_ONESHOT
              (ring2 STATE_BL_BUF_UNMAPPED STATE_BL_BUF_MAPPED) 1 (Some 0)"
  have irq: "beaglelogic_serve_irq 1 ?D = Some ?E"
    by (simp add: beaglelogic_serve_irq_def concrete_devs irq_advance_def
        beaglelogic_unmap_buffer_def beaglelogic_map_buffer_def Let_def
        BL_TRIGGERFLAGS_ONESHOT_def)
  have sl: "sleep_until (buf_unmapped 0) [1] ?D = Some (True, ?E)"
    using irq by (simp add: buf_unmapped_def concrete_devs)
  have pc: "perform_copy True 4194304 (reader_at 0 0) ?E = Some (4194304, reader_at 1 0, ?E)"
    by (simp add: perform_copy_def concrete_devs reader_at_def detect_drop_def
        detect_drop_error_def Let_def)
  have w: "read_wait False [1] True 4194304 (reader_at 0 0) ?D
             = Some (4194304, reader_at 1 0, ?E)"
    using sl pc by (simp add: read_wait_def wait_event_interruptible_def concrete_devs
        reader_at_def)
  show ?thesis
    unfolding beaglelogic_f_read_def start_two_buffers
    using w by (simp add: fresh_reader_def reader_at_def ring_dev_def probed_dev_def bl_states
        ring2_def Let_def)
qed

lemma oneshot_second_irq:
  "beaglelogic_serve_irq 1
     (session_dev BL_TRIGGERFLAGS_ONESHOT (ring2 STATE_BL_BUF_UNMAPPED STATE_BL_BUF_MAPPED) 1 (Some 0))
     = Some (session_dev BL_TRIGGERFLAGS_ONESHOT
               (ring2 STATE_BL_BUF_UNMAPPED STATE_BL_BUF_UNMAPPED) 1 (Some 1))"
  by (simp add: beaglelogic_serve_irq_def concrete_devs irq_advance_def
      beaglelogic_unmap_buffer_def beaglelogic_map_buffer_def Let_def
      BL_TRIGGERFLAGS_ONESHOT_def)

lemma oneshot_second_read:
  "beaglelogic_f_read pru_ack False [1] True 4194304 (reader_at 1 0)
     (session_dev BL_TRIGGERFLAGS_ONESHOT (ring2 STATE_BL_BUF_UNMAPPED STATE_BL_BUF_MAPPED) 1 (Some 0))
     = Some (4194304, reader_at 0 0,
             session_dev BL_TRIGGERFLAGS_ONESHOT
               (ring2 STATE_BL_BUF_UNMAPPED STATE_BL_BUF_UNMAPPED) 1 (Some 1))"
proof -
  let ?D = "session_dev BL_TRIGGERFLAGS_ONESHOT
              (ring2 STATE_BL_BUF_UNMAPPED STATE_BL_BUF_MAPPED) 1 (Some 0)"
  let ?E = "session_dev BL_TRIGGERFLAGS_ONESHOT
              (ring2 STATE_BL_BUF_UNMAPPED STATE_BL_BUF_UNMAPPED) 1 (Some 1)"
  have sl: "sleep_until (buf_unmapped 1) [1] ?D = Some (True, ?E)"
    using oneshot_second_irq by (simp add: buf_unmapped_def concrete_devs)
  have pc: "perform_copy True 4194304 (reader_at 1 0) ?E = Some (4194304, reader_at 0 0, ?E)"
    by (simp add: perform_copy_def concrete_devs reader_at_def detect_drop_def
        detect_drop_error_def Let_def)
  have w: "read_wait False [1] True 4194304 (reader_at 1 0) ?D
             = Some (4194304, reader_at 0 0, ?E)"
    using sl pc by (simp add: read_wait_def wait_event_interruptible_def concrete_devs
        reader_at_def)
  show ?thesis
    unfolding beaglelogic_f_read_def
    using w by (simp add: reader_at_def session_dev_def ring_dev_def probed_dev_def bl_states)
qed

lemma oneshot_nonblocking_reads:
  "beaglelogic_f_read pru_ack True [] True 4194304 (reader_at 0 0)
     (session_dev BL_TRIGGERFLAGS_ONESHOT (ring2 STATE_BL_BUF_UNMAPPED STATE_BL_BUF_UNMAPPED) 1 (Some 1))
     = Some (4194304, reader_at 1 0,
             session_dev BL_TRIGGERFLAGS_ONESHOT
               (ring2 STATE_BL_BUF_UNMAPPED STATE_BL_BUF_UNMAPPED) 1 (Some 1))"
  "beaglelogic_f_read pru_ack True [] True 4194304 (reader_at 1 0)
     (session_dev BL_TRIGGERFLAGS_ONESHOT (ring2 STATE_BL_BUF_UNMAPPED STATE_BL_BUF_UNMAPPED) 1 (Some 1))
     = Some (4194304, reader_at 0 0,
             session_dev BL_TRIGGERFLAGS_ONESHOT
               (ring2 STATE_BL_BUF_UNMAPPED STATE_BL_BUF_UNMAPPED) 1 (Some 1))"
proof -
  let ?E = "session_dev BL_TRIGGERFLAGS_ONESHOT
              (ring2 STATE_BL_BUF_UNMAPPED STATE_BL_BUF_UNMAPPED) 1 (Some 1)"
  have pc0: "perform_copy True 4194304 (reader_at 0 0) ?E = Some (4194304, reader_at 1 0, ?E)"
    by (simp add: perform_copy_def concrete_devs reader_at_def detect_drop_def
        detect_drop_error_def Let_def)
  have pc1: "perform_copy True 4194304 (reader_at 1 0) ?E = Some (4194304, reader_at 0 0, ?E)"
    by (simp add: perform_copy_def concrete_devs reader_at_def detect_drop_def
        detect_drop_error_def Let_def)
  have w0: "read_wait True [] True 4194304 (reader_at 0 0) ?E
              = Some (4194304, reader_at 1 0, ?E)"
    using pc0 by (simp add: read_wait_def concrete_devs reader_at_def)
  have w1: "read_wait True [] True 4194304 (reader_at 1 0) ?E
              = Some (4194304, reader_at 0 0, ?E)"
    using pc1 by (simp add: read_wait_def concrete_devs reader_at_def)
  show "beaglelogic_f_read pru_ack True [] True 4194304 (reader_at 0 0) ?E
          = Some (4194304, reader_at 1 0, ?E)"
    unfolding beaglelogic_f_read_def
    using w0 by (simp add: reader_at_def session_dev_def ring_dev_def probed_dev_def bl_states)
  show "beaglelogic_f_read pru_ack True [] True 4194304 (reader_at 1 0) ?E
          = Some (4194304, reader_at 0 0, ?E)"
    unfolding beaglelogic_f_read_def
    using w1 by (simp add: reader_at_def session_dev_def ring_dev_def probed_dev_def bl_states)
qed

lemma oneshot_completion_irq:
  "beaglelogic_serve_irq 2
     (session_dev BL_TRIGGERFLAGS_ONESHOT (ring2 STATE_BL_BUF_UNMAPPED STATE_BL_BUF_UNMAPPED) 1 (Some 1))
     = Some (mutex_unlock
              ((session_dev BL_TRIGGERFLAGS_ONESHOT
                  (ring2 STATE_BL_BUF_UNMAPPED STATE_BL_BUF_UNMAPPED) 1 (Some 1))
                 \<lparr>state := STATE_BL_INITIALIZED\<rparr>))"
  "beaglelogic_serve_irq 2
     (mutex_unlock
        ((session_dev BL_TRIGGERFLAGS_ONESHOT
            (ring2 STATE_BL_BUF_UNMAPPED STATE_BL_BUF_UNMAPPED) 1 (Some 1))
           \<lparr>state := STATE_BL_INITIALIZED\<rparr>))
     = Some (mutex_unlock
              ((session_dev BL_TRIGGERFLAGS_ONESHOT
                  (ring2 STATE_BL_BUF_UNMAPPED STATE_BL_BUF_UNMAPPED) 1 (Some 1))
                 \<lparr>state := STATE_BL_INITIALIZED\<rparr>))"
  by (simp_all add: beaglelogic_serve_irq_def concrete_devs Let_def mutex_unlock_def bl_states
      BL_TRIGGERFLAGS_ONESHOT_def)

lemma oneshot_eof_read:
  "beaglelogic_f_read pru_ack True [] True 4096 (reader_at 0 0)
     (mutex_unlock
        ((session_dev BL_TRIGGERFLAGS_ONESHOT
            (ring2 STATE_BL_BUF_UNMAPPED STATE_BL_BUF_UNMAPPED) 1 (Some 1))
           \<lparr>state := STATE_BL_INITIALIZED\<rparr>))
     = Some (0, reader_at 0 0,
             mutex_unlock
               ((session_dev BL_TRIGGERFLAGS_ONESHOT
                   (ring2 STATE_BL_BUF_UNMAPPED STATE_BL_BUF_UNMAPPED) 1 (Some 1))
                  \<lparr>state := STATE_BL_INITIALIZED\<rparr>))"
  by (simp add: beaglelogic_f_read_def concrete_devs mutex_unlock_def bl_states reader_at_def)

lemma oneshot_sessions:
  "run_session pru_ack [Read False [1] True 4194304, Irq 1, Read True [] True 4194304]
     fresh_reader
     (ring_dev BL_TRIGGERFLAGS_ONESHOT (ring2 STATE_BL_BUF_MAPPED STATE_BL_BUF_MAPPED))
     = Some ([4194304, 4194304], reader_at 0 0,
             session_dev BL_TRIGGERFLAGS_ONESHOT
               (ring2 STATE_BL_BUF_UNMAPPED STATE_BL_BUF_UNMAPPED) 1 (Some 1))"
  "run_session pru_ack [Read False [1] True 4194304, Irq 1, Read True [] True 4194304, Irq 2]
     fresh_reader
     (ring_dev BL_TRIGGERFLAGS_ONESHOT (ring2 STATE_BL_BUF_MAPPED STATE_BL_BUF_MAPPED))
     = Some ([4194304, 4194304], reader_at 0 0,
             mutex_unlock
               ((session_dev BL_TRIGGERFLAGS_ONESHOT
                   (ring2 STATE_BL_BUF_UNMAPPED STATE_BL_BUF_UNMAPPED) 1 (Some 1))
                  \<lparr>state := STATE_BL_INITIALIZED\<rparr>))"
  "run_session pru_ack [Irq 2, Read True [] True 4096] (reader_at 0 0)
     (mutex_unlock
        ((session_dev BL_TRIGGERFLAGS_ONESHOT
            (ring2 STATE_BL_BUF_UNMAPPED STATE_BL_BUF_UNMAPPED) 1 (Some 1))
           \<lparr>state := STATE_BL_INITIALIZED\<rparr>))
     = Some ([0], reader_at 0 0,
             mutex_unlock
               ((session_dev BL_TRIGGERFLAGS_ONESHOT
                   (ring2 STATE_BL_BUF_UNMAPPED STATE_BL_BUF_UNMAPPED) 1 (Some 1))
                  \<lparr>state := STATE_BL_INITIALIZED\<rparr>))"
  by (simp_all only: run_session.simps oneshot_first_read oneshot_second_irq
      oneshot_nonblocking_reads oneshot_completion_irq oneshot_eof_read option.case prod.case)

lemma ring2_shape: "ring_shape 2 4194304 (ring_dev t (ring2 s0 s1))"
proof -
  have all2: "\<And>P. (\<forall>i < (2::nat). P i) \<longleftrightarrow> P 0 \<and> P 1"
    by (auto simp: less_2_cases_iff)
  show ?thesis by (simp add: ring_shape_def concrete_devs all2)
qed


text \<open>
  C5, as claimed, at two concrete inputs. First, a read of length 0 by a reader that stands at
  the start of buffer 1 while the device is Running returns 0, although the cursor is not at
  the first buffer and the state is not Initialized. Second, a oneshot capture on a fresh ring
  of two 4 MiB buffers: two blocking reads, each woken by its buffer-ready signal, return
  4194304 bytes each, so that exactly 2 times 4 MiB have been captured and read; the
  capture-complete signal has not been served yet and the device is still Running. The third
  read does not return 0: it returns 4194304 bytes again, from buffer 0.
\<close>

theorem eof_needs_length_and_completion:
  "beaglelogic_f_read pru_ack True [] True 0 (reader_at 1 0)
     (session_dev BL_TRIGGERFLAGS_CONTINUOUS
        (ring2 STATE_BL_BUF_UNMAPPED STATE_BL_BUF_UNMAPPED) 0 (Some 1))
     = Some (0, reader_at 1 0,
             session_dev BL_TRIGGERFLAGS_CONTINUOUS
               (ring2 STATE_BL_BUF_UNMAPPED STATE_BL_BUF_UNMAPPED) 0 (Some 1)) \<and>
   rbuf (reader_at 1 0) = Some 1 \<and>
   state (session_dev BL_TRIGGERFLAGS_CONTINUOUS
            (ring2 STATE_BL_BUF_UNMAPPED STATE_BL_BUF_UNMAPPED) 0 (Some 1)) = STATE_BL_RUNNING \<and>
   STATE_BL_RUNNING \<noteq> STATE_BL_INITIALIZED \<and>
   read_times pru_ack [1] 4194304 2 fresh_reader
     (ring_dev BL_TRIGGERFLAGS_ONESHOT (ring2 STATE_BL_BUF_MAPPED STATE_BL_BUF_MAPPED))
     = Some ([4194304, 4194304], reader_at 0 0,
             session_dev BL_TRIGGERFLAGS_ONESHOT
               (ring2 STATE_BL_BUF_UNMAPPED STATE_BL_BUF_UNMAPPED) 1 (Some 1)) \<and>
   beaglelogic_f_read pru_ack True [] True 4194304 (reader_at 0 0)
     (session_dev BL_TRIGGERFLAGS_ONESHOT
        (ring2 STATE_BL_BUF_UNMAPPED STATE_BL_BUF_UNMAPPED) 1 (Some 1))
     = Some (4194304, reader_at 1 0,
             session_dev BL_TRIGGERFLAGS_ONESHOT
               (ring2 STATE_BL_BUF_UNMAPPED STATE_BL_BUF_UNMAPPED) 1 (Some 1))"
proof -
  let ?D = "session_dev BL_TRIGGERFLAGS_CONTINUOUS
              (ring2 STATE_BL_BUF_UNMAPPED STATE_BL_BUF_UNMAPPED) 0 (Some 1)"
  have pc: "perform_copy True 0 (reader_at 1 0) ?D = Some (0, reader_at 1 0, ?D)"
    by (simp add: perform_copy_def concrete_devs reader_at_def detect_drop_def
        detect_drop_error_def Let_def)
  have w: "read_wait True [] True 0 (reader_at 1 0) ?D = Some (0, reader_at 1 0, ?D)"
    using pc by (simp add: read_wait_def concrete_devs reader_at_def)
  have z: "beaglelogic_f_read pru_ack True [] True 0 (reader_at 1 0) ?D
          = Some (0, reader_at 1 0, ?D)"
    using w by (simp add: beaglelogic_f_read_def concrete_devs reader_at_def bl_states)
  have two: "read_times pru_ack [1] 4194304 (Suc (Suc 0)) fresh_reader
     (ring_dev BL_TRIGGERFLAGS_ONESHOT (ring2 STATE_BL_BUF_MAPPED STATE_BL_BUF_MAPPED))
     = Some ([4194304, 4194304], reader_at 0 0,
             session_dev BL_TRIGGERFLAGS_ONESHOT
               (ring2 STATE_BL_BUF_UNMAPPED STATE_BL_BUF_UNMAPPED) 1 (Some 1))"
    by (simp only: read_times.simps oneshot_first_read oneshot_second_read option.case
        prod.case)
  have n2: "(2::nat) = Suc (Suc 0)" by simp
  have third: "beaglelogic_f_read pru_ack True [] True 4194304 (reader_at 0 0)
     (session_dev BL_TRIGGERFLAGS_ONESHOT
        (ring2 STATE_BL_BUF_UNMAPPED STATE_BL_BUF_UNMAPPED) 1 (Some 1))
     = Some (4194304, reader_at 1 0,
             session_dev BL_TRIGGERFLAGS_ONESHOT
               (ring2 STATE_BL_BUF_UNMAPPED STATE_BL_BUF_UNMAPPED) 1 (Some 1))"
    by (rule oneshot_nonblocking_reads(1))
  have rest: "rbuf (reader_at 1 0) = Some 1 \<and> state ?D = STATE_BL_RUNNING \<and>
              STATE_BL_RUNNING \<noteq> STATE_BL_INITIALIZED"
    by (simp add: reader_at_def concrete_devs bl_states)
  from z rest two [folded n2] third show ?thesis by (intro conjI) blast+
qed

text \<open>
  C5, amended. (1) For every read of a nonzero length by an initialized reader with bytes
  remaining in its current buffer (which holds whenever the unit size is not 0), on a device
  with a buffer array: the read returns 0 if and only if the reader stands on the first buffer
  at position 0 and the device state is Initialized. (2) In particular, on a ring of \<open>n\<close>
  buffers of \<open>unit\<close> bytes (\<open>0 < unit < 2 ^ 31\<close>), after any session of reads and
  interrupts, in any interleaving and with no other call, whose reads are \<open>n\<close> reads that
  returned \<open>unit\<close> bytes each: the reader stands on the first buffer at position 0, and the
  next read of a nonzero length returns 0 if and only if the device state is Initialized. When
  the device is then still Running in oneshot mode, the capture-complete signal sets the state
  to Initialized and releases the lock, with no call of stop, and the read after it returns 0.
  (3) Once the device is Initialized and the reader initialized, every further session of reads
  and interrupts leaves them so. (4) Such sessions exist for every fresh ring: in oneshot mode
  \<open>n\<close> blocking reads of at least \<open>unit\<close> bytes, each woken by its buffer-ready signal,
  return \<open>unit\<close> bytes each (the first one starts the capture) and leave the device
  Running; the capture-complete signal then takes it to Initialized and releases the lock, and
  the next read returns 0.
\<close>

theorem read_eof:
  "(rbuf reader = Some i \<and> buffers bldev = Some bs \<and> sz \<noteq> 0 \<and> remaining reader \<noteq> 0 \<longrightarrow>
      ((\<exists>r d. beaglelogic_f_read pru nonblock irqs copy_ok sz reader bldev = Some (0, r, d))
         \<longleftrightarrow> i = 0 \<and> pos reader = 0 \<and> state bldev = STATE_BL_INITIALIZED)) \<and>
   (ring_shape n unit bldev \<and> 0 < n \<and> unit \<noteq> 0 \<and> unit < 0x80000000 \<and> sz \<noteq> 0 \<and>
    run_session pru evs fresh_reader bldev = Some (replicate n (sint unit), rdr, dev) \<longrightarrow>
      rbuf rdr = Some 0 \<and> pos rdr = 0 \<and>
      ((\<exists>r d. beaglelogic_f_read pru nonblock irqs copy_ok sz rdr dev = Some (0, r, d))
         \<longleftrightarrow> state dev = STATE_BL_INITIALIZED) \<and>
      (state dev = STATE_BL_RUNNING \<and> triggerflags dev = BL_TRIGGERFLAGS_ONESHOT \<and>
       from_bl_irq_1 dev \<noteq> from_bl_irq_2 dev \<longrightarrow>
         (\<exists>d. beaglelogic_serve_irq (from_bl_irq_2 dev) dev = Some d \<and>
               state d = STATE_BL_INITIALIZED \<and> \<not> mutex d \<and>
               beaglelogic_f_read pru nonblock irqs copy_ok sz rdr d = Some (0, rdr, d)))) \<and>
   (state dev = STATE_BL_INITIALIZED \<and> rbuf rdr \<noteq> None \<and>
    run_session pru evs rdr dev = Some (rvs, rdra, deva) \<longrightarrow>
      state deva = STATE_BL_INITIALIZED \<and> rbuf rdra \<noteq> None) \<and>
   (buffers bldev = Some (map (fresh_buffer dma_alloc unit n) [0..<n]) \<and>
    0 < n \<and> n < 65536 \<and> unit \<noteq> 0 \<and> unit \<le> sz \<and>
    triggerflags bldev = BL_TRIGGERFLAGS_ONESHOT \<and>
    state bldev \<noteq> STATE_BL_RUNNING \<and> state bldev \<noteq> STATE_BL_ERROR \<and>
    \<not> mutex bldev \<and> samplerate bldev \<noteq> 0 \<and> from_bl_irq_1 bldev \<noteq> from_bl_irq_2 bldev \<longrightarrow>
      (\<exists>r d d'. read_times pru [from_bl_irq_1 bldev] sz n fresh_reader bldev
                   = Some (replicate n (sint unit), r, d) \<and>
                 state d = STATE_BL_RUNNING \<and>
                 beaglelogic_serve_irq (from_bl_irq_2 bldev) d = Some d' \<and>
                 state d' = STATE_BL_INITIALIZED \<and> \<not> mutex d' \<and>
                 beaglelogic_f_read pru nonblock irqs copy_ok sz r d' = Some (0, r, d')))"
proof (intro conjI impI)
  assume "rbuf reader = Some i \<and> buffers bldev = Some bs \<and> sz \<noteq> 0 \<and> remaining reader \<noteq> 0"
  then have a: "rbuf reader = Some i" "buffers bldev = Some bs" "sz \<noteq> 0"
    "remaining reader \<noteq> 0" by auto
  show "(\<exists>r d. beaglelogic_f_read pru nonblock irqs copy_ok sz reader bldev = Some (0, r, d))
         \<longleftrightarrow> i = 0 \<and> pos reader = 0 \<and> state bldev = STATE_BL_INITIALIZED"
    by (rule read_eof_iff [OF a])
next
  assume h: "ring_shape n unit bldev \<and> 0 < n \<and> unit \<noteq> 0 \<and> unit < 0x80000000 \<and> sz \<noteq> 0 \<and>
    run_session pru evs fresh_reader bldev = Some (replicate n (sint unit), rdr, dev)"
  then have c: "ring_shape n unit bldev" "0 < n" "unit \<noteq> 0" "unit < 0x80000000" "sz \<noteq> 0"
    "run_session pru evs fresh_reader bldev = Some (replicate n (sint unit), rdr, dev)"
    by auto
  from eof_after_capture [OF c, of nonblock irqs copy_ok]
  show "rbuf rdr = Some 0" and "pos rdr = 0"
    and "(\<exists>r d. beaglelogic_f_read pru nonblock irqs copy_ok sz rdr dev = Some (0, r, d))
         \<longleftrightarrow> state dev = STATE_BL_INITIALIZED"
    by blast+
  assume "state dev = STATE_BL_RUNNING \<and> triggerflags dev = BL_TRIGGERFLAGS_ONESHOT \<and>
       from_bl_irq_1 dev \<noteq> from_bl_irq_2 dev"
  with eof_after_capture [OF c, of nonblock irqs copy_ok]
  show "\<exists>d. beaglelogic_serve_irq (from_bl_irq_2 dev) dev = Some d \<and>
               state d = STATE_BL_INITIALIZED \<and> \<not> mutex d \<and>
               beaglelogic_f_read pru nonblock irqs copy_ok sz rdr d = Some (0, rdr, d)"
    by blast
next
  assume h: "state dev = STATE_BL_INITIALIZED \<and> rbuf rdr \<noteq> None \<and>
    run_session pru evs rdr dev = Some (rvs, rdra, deva)"
  then have c: "state dev = STATE_BL_INITIALIZED" "rbuf rdr \<noteq> None"
    "run_session pru evs rdr dev = Some (rvs, rdra, deva)" by auto
  from run_session_initialized [OF c]
  show "state deva = STATE_BL_INITIALIZED" and "rbuf rdra \<noteq> None" by blast+
next
  assume h: "buffers bldev = Some (map (fresh_buffer dma_alloc unit n) [0..<n]) \<and>
    0 < n \<and> n < 65536 \<and> unit \<noteq> 0 \<and> unit \<le> sz \<and>
    triggerflags bldev = BL_TRIGGERFLAGS_ONESHOT \<and>
    state bldev \<noteq> STATE_BL_RUNNING \<and> state bldev \<noteq> STATE_BL_ERROR \<and>
    \<not> mutex bldev \<and> samplerate bldev \<noteq> 0 \<and> from_bl_irq_1 bldev \<noteq> from_bl_irq_2 bldev"
  then have b: "buffers bldev = Some (map (fresh_buffer dma_alloc unit n) [0..<n])"
    "0 < n" "n < 65536" "unit \<noteq> 0" "unit \<le> sz"
    "triggerflags bldev = BL_TRIGGERFLAGS_ONESHOT"
    "state bldev \<noteq> STATE_BL_RUNNING" "state bldev \<noteq> STATE_BL_ERROR"
    "\<not> mutex bldev" "samplerate bldev \<noteq> 0" "from_bl_irq_1 bldev \<noteq> from_bl_irq_2 bldev"
    by auto
  show "\<exists>r d d'. read_times pru [from_bl_irq_1 bldev] sz n fresh_reader bldev
                   = Some (replicate n (sint unit), r, d) \<and>
                 state d = STATE_BL_RUNNING \<and>
                 beaglelogic_serve_irq (from_bl_irq_2 bldev) d = Some d' \<and>
                 state d' = STATE_BL_INITIALIZED \<and> \<not> mutex d' \<and>
                 beaglelogic_f_read pru nonblock irqs copy_ok sz r d' = Some (0, r, d')"
    by (rule oneshot_capture [OF b])
qed

lemma ring2_is_fresh:
  "ring2 STATE_BL_BUF_MAPPED STATE_BL_BUF_MAPPED
     = map (fresh_buffer dma_alloc_ok 4194304 2) [0..<2]"
proof -
  have "[0..<2] = [0, Suc 0]" by (simp add: upt_rec)
  then show ?thesis by (simp add: ring2_def fresh_buffer_def dma_alloc_ok_def)
qed

text \<open>
  C5 on the two-buffer device. A reader at the start of buffer 0 of the stopped device reads
  end of file. In oneshot mode, a blocking read woken by the first buffer-ready signal, the
  second buffer-ready signal and a non-blocking read give 4194304 bytes twice; the device is
  still Running and the third read is not at end of file, but it is once the capture-complete
  signal has been served, be it after the session or as its last event; the device then stays
  Initialized when the completion signal comes again and the reader reads end of file. The
  session of two blocking reads gives the same.
\<close>

theorem read_eof_witness:
  "rbuf (reader_at 0 0) = Some 0 \<and>
   buffers (ring_dev 0 (ring2 STATE_BL_BUF_UNMAPPED STATE_BL_BUF_UNMAPPED))
     = Some (ring2 STATE_BL_BUF_UNMAPPED STATE_BL_BUF_UNMAPPED) \<and>
   (4096 :: u32) \<noteq> 0 \<and> remaining (reader_at 0 0) \<noteq> 0 \<and>
   (\<exists>r d. beaglelogic_f_read pru_ack True [] True 4096 (reader_at 0 0)
             (ring_dev 0 (ring2 STATE_BL_BUF_UNMAPPED STATE_BL_BUF_UNMAPPED)) = Some (0, r, d)) \<and>
   ring_shape 2 4194304
     (ring_dev BL_TRIGGERFLAGS_ONESHOT (ring2 STATE_BL_BUF_MAPPED STATE_BL_BUF_MAPPED)) \<and>
   (4194304 :: u32) < 0x80000000 \<and>
   run_session pru_ack [Read False [1] True 4194304, Irq 1, Read True [] True 4194304]
     fresh_reader
     (ring_dev BL_TRIGGERFLAGS_ONESHOT (ring2 STATE_BL_BUF_MAPPED STATE_BL_BUF_MAPPED))
     = Some ([4194304, 4194304], reader_at 0 0,
             session_dev BL_TRIGGERFLAGS_ONESHOT
               (ring2 STATE_BL_BUF_UNMAPPED STATE_BL_BUF_UNMAPPED) 1 (Some 1)) \<and>
   \<not> (\<exists>r d. beaglelogic_f_read pru_ack True [] True 4096 (reader_at 0 0)
               (session_dev BL_TRIGGERFLAGS_ONESHOT
                  (ring2 STATE_BL_BUF_UNMAPPED STATE_BL_BUF_UNMAPPED) 1 (Some 1))
               = Some (0, r, d)) \<and>
   (\<exists>d. beaglelogic_serve_irq 2
           (session_dev BL_TRIGGERFLAGS_ONESHOT
              (ring2 STATE_BL_BUF_UNMAPPED STATE_BL_BUF_UNMAPPED) 1 (Some 1)) = Some d \<and>
        state d = STATE_BL_INITIALIZED \<and> \<not> mutex d \<and>
        beaglelogic_f_read pru_ack True [] True 4096 (reader_at 0 0) d
          = Some (0, reader_at 0 0, d)) \<and>
   run_session pru_ack [Read False [1] True 4194304, Irq 1, Read True [] True 4194304, Irq 2]
     fresh_reader
     (ring_dev BL_TRIGGERFLAGS_ONESHOT (ring2 STATE_BL_BUF_MAPPED STATE_BL_BUF_MAPPED))
     = Some ([4194304, 4194304], reader_at 0 0,
             mutex_unlock
               ((session_dev BL_TRIGGERFLAGS_ONESHOT
                   (ring2 STATE_BL_BUF_UNMAPPED STATE_BL_BUF_UNMAPPED) 1 (Some 1))
                  \<lparr>state := STATE_BL_INITIALIZED\<rparr>)) \<and>
   (\<exists>r d. beaglelogic_f_read pru_ack True [] True 4096 (reader_at 0 0)
             (mutex_unlock
                ((session_dev BL_TRIGGERFLAGS_ONESHOT
                    (ring2 STATE_BL_BUF_UNMAPPED STATE_BL_BUF_UNMAPPED) 1 (Some 1))
                   \<lparr>state := STATE_BL_INITIALIZED\<rparr>))
             = Some (0, r, d)) \<and>
   run_session pru_ack [Irq 2, Read True [] True 4096] (reader_at 0 0)
     (mutex_unlock
        ((session_dev BL_TRIGGERFLAGS_ONESHOT
            (ring2 STATE_BL_BUF_UNMAPPED STATE_BL_BUF_UNMAPPED) 1 (Some 1))
           \<lparr>state := STATE_BL_INITIALIZED\<rparr>))
     = Some ([0], reader_at 0 0,
             mutex_unlock
               ((session_dev BL_TRIGGERFLAGS_ONESHOT
                   (ring2 STATE_BL_BUF_UNMAPPED STATE_BL_BUF_UNMAPPED) 1 (Some 1))
                  \<lparr>state := STATE_BL_INITIALIZED\<rparr>)) \<and>
   state (mutex_unlock
            ((session_dev BL_TRIGGERFLAGS_ONESHOT
                (ring2 STATE_BL_BUF_UNMAPPED STATE_BL_BUF_UNMAPPED) 1 (Some 1))
               \<lparr>state := STATE_BL_INITIALIZED\<rparr>)) = STATE_BL_INITIALIZED \<and>
   buffers (ring_dev 0 (ring2 STATE_BL_BUF_MAPPED STATE_BL_BUF_MAPPED))
     = Some (map (fresh_buffer dma_alloc_ok 4194304 2) [0..<2]) \<and>
   (\<exists>r d d'. read_times pru_ack [1] 4194304 2 fresh_reader
                (ring_dev 0 (ring2 STATE_BL_BUF_MAPPED STATE_BL_BUF_MAPPED))
                = Some ([4194304, 4194304], r, d) \<and>
              state d = STATE_BL_RUNNING \<and>
              beaglelogic_serve_irq 2 d = Some d' \<and>
              state d' = STATE_BL_INITIALIZED \<and> \<not> mutex d' \<and>
              beaglelogic_f_read pru_ack True [] True 4194304 r d' = Some (0, r, d'))"
proof -
  let ?E = "ring_dev 0 (ring2 STATE_BL_BUF_UNMAPPED STATE_BL_BUF_UNMAPPED)"
  let ?D = "ring_dev 0 (ring2 STATE_BL_BUF_MAPPED STATE_BL_BUF_MAPPED)"
  let ?O = "ring_dev BL_TRIGGERFLAGS_ONESHOT (ring2 STATE_BL_BUF_MAPPED STATE_BL_BUF_MAPPED)"
  let ?S = "session_dev BL_TRIGGERFLAGS_ONESHOT
              (ring2 STATE_BL_BUF_UNMAPPED STATE_BL_BUF_UNMAPPED) 1 (Some 1)"
  let ?F = "mutex_unlock (?S\<lparr>state := STATE_BL_INITIALIZED\<rparr>)"
  have a1: "rbuf (reader_at 0 0) = Some 0" by (simp add: reader_at_def)
  have a2: "buffers ?E = Some (ring2 STATE_BL_BUF_UNMAPPED STATE_BL_BUF_UNMAPPED)"
    by (simp add: ring_dev_def)
  have a3: "(4096 :: u32) \<noteq> 0" by simp
  have a4: "remaining (reader_at 0 0) \<noteq> 0" by (simp add: reader_at_def)
  have a5: "pos (reader_at 0 0) = 0 \<and> state ?E = STATE_BL_INITIALIZED"
    by (simp add: reader_at_def ring_dev_def probed_dev_def)
  have eof: "\<exists>r d. beaglelogic_f_read pru_ack True [] True 4096 (reader_at 0 0) ?E
                     = Some (0, r, d)"
    using read_eof [where reader = "reader_at 0 0" and i = 0 and bldev = ?E and sz = 4096
        and bs = "ring2 STATE_BL_BUF_UNMAPPED STATE_BL_BUF_UNMAPPED" and pru = pru_ack
        and nonblock = True and irqs = "[]" and copy_ok = True, THEN conjunct1]
      a1 a2 a3 a4 a5
    by blast
  have rep: "replicate 2 (sint (4194304 :: u32)) = [4194304, 4194304]"
    by (simp add: numeral_2_eq_2)
  have sh: "ring_shape 2 4194304 ?O" by (rule ring2_shape)
  have ul: "(4194304 :: u32) < 0x80000000" by simp
  have u0: "(4194304 :: u32) \<noteq> 0" by simp
  have n2: "(0::nat) < 2" by simp
  have s1: "run_session pru_ack [Read False [1] True 4194304, Irq 1, Read True [] True 4194304]
              fresh_reader ?O = Some (replicate 2 (sint (4194304 :: u32)), reader_at 0 0, ?S)"
    unfolding rep by (rule oneshot_sessions(1))
  have s2: "run_session pru_ack
              [Read False [1] True 4194304, Irq 1, Read True [] True 4194304, Irq 2]
              fresh_reader ?O = Some (replicate 2 (sint (4194304 :: u32)), reader_at 0 0, ?F)"
    unfolding rep by (rule oneshot_sessions(2))
  have stS: "state ?S = STATE_BL_RUNNING \<and> state ?S \<noteq> STATE_BL_INITIALIZED \<and>
             triggerflags ?S = BL_TRIGGERFLAGS_ONESHOT \<and>
             from_bl_irq_1 ?S \<noteq> from_bl_irq_2 ?S \<and> from_bl_irq_2 ?S = 2"
    by (simp add: concrete_devs bl_states)
  have stF: "state ?F = STATE_BL_INITIALIZED" by (simp add: mutex_unlock_def)
  note g1 = read_eof [where bldev = ?O and n = 2 and unit = 4194304 and sz = 4096
      and pru = pru_ack and evs = "[Read False [1] True 4194304, Irq 1, Read True [] True 4194304]"
      and rdr = "reader_at 0 0" and dev = ?S and nonblock = True and irqs = "[]"
      and copy_ok = True, THEN conjunct2, THEN conjunct1]
  have before: "\<not> (\<exists>r d. beaglelogic_f_read pru_ack True [] True 4096 (reader_at 0 0) ?S
                           = Some (0, r, d))"
    using g1 sh n2 u0 ul a3 s1 stS by blast
  have after: "\<exists>d. beaglelogic_serve_irq 2 ?S = Some d \<and>
        state d = STATE_BL_INITIALIZED \<and> \<not> mutex d \<and>
        beaglelogic_f_read pru_ack True [] True 4096 (reader_at 0 0) d
          = Some (0, reader_at 0 0, d)"
  proof -
    from g1 sh n2 u0 ul a3 s1 stS
    have "\<exists>d. beaglelogic_serve_irq (from_bl_irq_2 ?S) ?S = Some d \<and>
        state d = STATE_BL_INITIALIZED \<and> \<not> mutex d \<and>
        beaglelogic_f_read pru_ack True [] True 4096 (reader_at 0 0) d
          = Some (0, reader_at 0 0, d)"
      by blast
    moreover have "from_bl_irq_2 ?S = 2" using stS by blast
    ultimately show ?thesis by (simp only:)
  qed
  have served: "\<exists>r d. beaglelogic_f_read pru_ack True [] True 4096 (reader_at 0 0) ?F
                         = Some (0, r, d)"
    using read_eof [where bldev = ?O and n = 2 and unit = 4194304 and sz = 4096
      and pru = pru_ack
      and evs = "[Read False [1] True 4194304, Irq 1, Read True [] True 4194304, Irq 2]"
      and rdr = "reader_at 0 0" and dev = ?F and nonblock = True and irqs = "[]"
      and copy_ok = True, THEN conjunct2, THEN conjunct1]
      sh n2 u0 ul a3 s2 stF
    by blast
  have rn: "rbuf (reader_at 0 0) \<noteq> None" by (simp add: reader_at_def)
  have keep: "state ?F = STATE_BL_INITIALIZED \<and> rbuf (reader_at 0 0) \<noteq> None"
    using read_eof [where dev = ?F and rdr = "reader_at 0 0" and pru = pru_ack
      and evs = "[Irq 2, Read True [] True 4096]" and rvs = "[0]" and rdra = "reader_at 0 0"
      and deva = ?F, THEN conjunct2, THEN conjunct2, THEN conjunct1]
      stF rn oneshot_sessions(3)
    by blast
  have b1: "buffers ?D = Some (map (fresh_buffer dma_alloc_ok 4194304 2) [0..<2])"
    by (simp add: ring_dev_def ring2_is_fresh)
  have b2: "triggerflags ?D = BL_TRIGGERFLAGS_ONESHOT \<and> state ?D \<noteq> STATE_BL_RUNNING \<and>
            state ?D \<noteq> STATE_BL_ERROR \<and> \<not> mutex ?D \<and> samplerate ?D \<noteq> 0 \<and>
            from_bl_irq_1 ?D \<noteq> from_bl_irq_2 ?D \<and> from_bl_irq_1 ?D = 1 \<and> from_bl_irq_2 ?D = 2"
    by (simp add: ring_dev_def probed_dev_def bl_states BL_TRIGGERFLAGS_ONESHOT_def)
  have b3: "(0::nat) < 2 \<and> (2::nat) < 65536 \<and> (4194304 :: u32) \<noteq> 0 \<and>
            (4194304 :: u32) \<le> 4194304" by simp
  have c: "buffers ?D = Some (map (fresh_buffer dma_alloc_ok 4194304 2) [0..<2]) \<and>
    (0::nat) < 2 \<and> (2::nat) < 65536 \<and> (4194304 :: u32) \<noteq> 0 \<and> (4194304 :: u32) \<le> 4194304 \<and>
    triggerflags ?D = BL_TRIGGERFLAGS_ONESHOT \<and>
    state ?D \<noteq> STATE_BL_RUNNING \<and> state ?D \<noteq> STATE_BL_ERROR \<and>
    \<not> mutex ?D \<and> samplerate ?D \<noteq> 0 \<and> from_bl_irq_1 ?D \<noteq> from_bl_irq_2 ?D"
    using b1 b2 b3 by blast
  have q: "from_bl_irq_1 ?D = 1" "from_bl_irq_2 ?D = 2" using b2 by auto
  have "\<exists>r d d'. read_times pru_ack [from_bl_irq_1 ?D] 4194304 2 fresh_reader ?D
                = Some (replicate 2 (sint (4194304 :: u32)), r, d) \<and>
              state d = STATE_BL_RUNNING \<and>
              beaglelogic_serve_irq (from_bl_irq_2 ?D) d = Some d' \<and>
              state d' = STATE_BL_INITIALIZED \<and> \<not> mutex d' \<and>
              beaglelogic_f_read pru_ack True [] True 4194304 r d' = Some (0, r, d')"
    using read_eof [where bldev = ?D and dma_alloc = dma_alloc_ok and unit = 4194304 and n = 2
        and sz = 4194304 and pru = pru_ack and nonblock = True and irqs = "[]"
        and copy_ok = True, THEN conjunct2, THEN conjunct2, THEN conjunct2] c
    by (rule mp)
  then have run: "\<exists>r d d'. read_times pru_ack [1] 4194304 2 fresh_reader ?D
                = Some ([4194304, 4194304], r, d) \<and>
              state d = STATE_BL_RUNNING \<and>
              beaglelogic_serve_irq 2 d = Some d' \<and>
              state d' = STATE_BL_INITIALIZED \<and> \<not> mutex d' \<and>
              beaglelogic_f_read pru_ack True [] True 4194304 r d' = Some (0, r, d')"
    unfolding q rep .
  from a1 a2 a3 a4 eof sh ul oneshot_sessions before after served keep b1 run
  show ?thesis by (intro conjI) blast+
qed


end
